theory Spec2Isabelle
  imports Main "HOL-Library.AList"
begin

section \<open>The dependency optimizer of the dev server: data model\<close>

text \<open>
  The development follows \<^verbatim>\<open>packages/vite/src/node/optimizer/optimizer.ts\<close>.
  The closure created by \<^verbatim>\<open>initDepsOptimizer\<close> is a record of its variables;
  JavaScript objects that are shared and mutated (the metadata snapshots and the
  dependency infos they hold) live in an explicit store, addressed by references.
  A \<^verbatim>\<open>Record<string, OptimizedDepInfo>\<close> is an association list from ids to
  references, in insertion order, which is the order \<^verbatim>\<open>Object.keys\<close> and
  \<^verbatim>\<open>for ... in\<close> enumerate (ids are package specifiers; none is an array index
  or the name of a member of \<^verbatim>\<open>Object.prototype\<close>).
\<close>

type_synonym ref = nat

text \<open>\<^verbatim>\<open>OptimizedDepInfo\<close>: the optional fields are options; \<^verbatim>\<open>processing\<close> is the
  reference of a promise, \<^verbatim>\<open>exportsData\<close> an opaque handle.\<close>

record OptimizedDepInfo =
  dep_id :: string
  dep_file :: string
  src :: "string option"
  needsInterop :: "bool option"
  browserHash :: "string option"
  fileHash :: "string option"
  processing :: "ref option"
  exportsData :: "nat option"

type_synonym dep_map = "(string \<times> ref) list"

text \<open>\<^verbatim>\<open>DepOptimizationMetadata\<close>; \<open>md_browserHash\<close> is its \<^verbatim>\<open>browserHash\<close>.\<close>

record DepOptimizationMetadata =
  hash :: string
  md_browserHash :: string
  optimized :: dep_map
  chunks :: dep_map
  discovered :: dep_map

text \<open>What the bundler hands back: a metadata object built by the bundler, by value.\<close>

record bundler_metadata =
  bm_hash :: string
  bm_browserHash :: string
  bm_optimized :: "(string \<times> OptimizedDepInfo) list"
  bm_chunks :: "(string \<times> OptimizedDepInfo) list"
  bm_discovered :: "(string \<times> OptimizedDepInfo) list"

datatype exn = TypeError | Rejected string | AddRejected string

datatype msg =
    NewDepsOptimized "string list"
  | ErrorWhileUpdating exn
  | OptimizedDepsChanged
  | MixedEsmCjs "string list"
  | RegisteringBeforeScanOver
  | SsrMissingDependency string
  | ScanFailed exn

datatype effect =
    LoggerInfo msg
  | LoggerWarn msg
  | LoggerError msg
  | RunOptimizeDeps "(string \<times> OptimizedDepInfo) list"
  | OptimizeServerSsrDeps
  | DiscoverProjectDependencies
  | BundlerCommit ref
  | BundlerCancel ref
  | InvalidateAll
  | WsSendFullReload
  | PreTransformOptimizeDepsEntries
  | DoneCalled string nat
  | MainOptimizerRun

datatype callback = RerunTimer | LogDepsTimer | AfterLoad string | EnsureFirstRunTimer | ScanTimer

text \<open>The configuration and the pure collaborators imported from other modules.\<close>

record env =
  isBuild :: bool
  devDepsScanner :: bool
  has_server :: bool
  config_ssr :: bool
  mainConfig :: "bool option"
  isDebugEnabled :: bool
  sessionTimestamp :: string
  getHash :: "string \<Rightarrow> string"
  getOptimizedDepPath :: "string \<Rightarrow> bool option \<Rightarrow> string"
  extractExportsData :: "string \<Rightarrow> nat"
  isOptimizedDepFile :: "string \<Rightarrow> bool"
  stringify_deps :: "(string \<times> OptimizedDepInfo) list \<Rightarrow> string"

text \<open>The store, the timers of the event loop, the closure variables of
  \<^verbatim>\<open>initDepsOptimizer\<close> (\<open>cur_metadata\<close> is \<^verbatim>\<open>_metadata\<close>), and the calls made to the
  outside, in order.\<close>

record state =
  infos :: "ref \<Rightarrow> OptimizedDepInfo"
  metas :: "ref \<Rightarrow> DepOptimizationMetadata"
  fulfilled :: "ref set"
  next_ref :: ref
  timers :: "(ref \<times> nat \<times> callback) list"
  handle :: "ref option"
  ssrServerDepsMetadata :: "ref option"
  cur_metadata :: ref
  newDepsDiscovered :: bool
  newDepsToLog :: "string list"
  newDepsToLogHandle :: "ref option"
  depOptimizationProcessing :: ref
  depOptimizationProcessingQueue :: "ref list"
  enqueuedRerun :: bool
  currentlyProcessing :: bool
  optimizeDepsEntriesVisited :: bool
  firstRunCalled :: bool
  scanProcessing :: "ref option"
  registeredIds :: "(string \<times> nat) list"
  seenIds :: "string set"
  workersSources :: "string set"
  waitingOn :: "string option"
  firstRunEnsured :: bool
  effects :: "effect list"

section \<open>The reload decision of a rerun\<close>

text \<open>Lines 252 to 266: the ids of \<^verbatim>\<open>metadata.discovered\<close> that the bundler optimized
  with a \<^verbatim>\<open>needsInterop\<close> other than the defined one of the discovered entry.\<close>

definition interop_mismatch :: "state \<Rightarrow> ref \<Rightarrow> ref \<Rightarrow> string \<Rightarrow> bool" where
  "interop_mismatch s metadata newData dep =
     (case map_of (discovered (metas s metadata)) dep of
        None \<Rightarrow> False
      | Some d \<Rightarrow>
          (case map_of (optimized (metas s newData)) dep of
             None \<Rightarrow> False
           | Some n \<Rightarrow> needsInterop (infos s d) \<noteq> None \<and>
                       needsInterop (infos s n) \<noteq> needsInterop (infos s d)))"

definition needsInteropMismatch :: "state \<Rightarrow> ref \<Rightarrow> ref \<Rightarrow> string list" where
  "needsInteropMismatch s metadata newData =
     filter (interop_mismatch s metadata newData) (map fst (discovered (metas s metadata)))"

text \<open>Lines 275 to 279: \<^verbatim>\<open>Object.keys(metadata.optimized).some(...)\<close>. Reading
  \<^verbatim>\<open>.fileHash\<close> of an id that \<^verbatim>\<open>newData.optimized\<close> lacks throws a TypeError;
  \<^verbatim>\<open>some\<close> stops at the first id whose hashes differ.\<close>

fun fileHash_changed :: "state \<Rightarrow> ref \<Rightarrow> ref \<Rightarrow> string list \<Rightarrow> exn + bool" where
  "fileHash_changed s metadata newData [] = Inr False"
| "fileHash_changed s metadata newData (dep # deps) =
     (case map_of (optimized (metas s metadata)) dep of
        None \<Rightarrow> Inl TypeError
      | Some m \<Rightarrow>
          (case map_of (optimized (metas s newData)) dep of
             None \<Rightarrow> Inl TypeError
           | Some n \<Rightarrow>
               if fileHash (infos s m) \<noteq> fileHash (infos s n) then Inr True
               else fileHash_changed s metadata newData deps))"

text \<open>Lines 272 to 279, with the short circuit of \<^verbatim>\<open>||\<close>.\<close>

definition needsReload :: "state \<Rightarrow> ref \<Rightarrow> ref \<Rightarrow> exn + bool" where
  "needsReload s metadata newData =
     (if needsInteropMismatch s metadata newData \<noteq> [] then Inr True
      else if hash (metas s metadata) \<noteq> hash (metas s newData) then Inr True
      else fileHash_changed s metadata newData (map fst (optimized (metas s metadata))))"

text \<open>The third disjunct of the reload decision, as a predicate: some id of the old
  optimized map has an entry in the new one whose file hash is another.\<close>

definition some_fileHash_differs :: "state \<Rightarrow> ref \<Rightarrow> ref \<Rightarrow> bool" where
  "some_fileHash_differs s metadata newData =
     (\<exists>dep \<in> set (map fst (optimized (metas s metadata))).
        case map_of (optimized (metas s metadata)) dep of
          None \<Rightarrow> False
        | Some m \<Rightarrow>
            (case map_of (optimized (metas s newData)) dep of
               None \<Rightarrow> False
             | Some n \<Rightarrow> fileHash (infos s n) \<noteq> fileHash (infos s m)))"

definition some_optimized_missing :: "state \<Rightarrow> ref \<Rightarrow> ref \<Rightarrow> bool" where
  "some_optimized_missing s metadata newData =
     (\<exists>dep \<in> set (map fst (optimized (metas s metadata))).
        map_of (optimized (metas s newData)) dep = None)"

text \<open>Where \<^verbatim>\<open>some\<close> stops: an id keeps its file hash when both optimized maps have
  it with the same \<^verbatim>\<open>fileHash\<close>; \<open>first_unkept\<close> is the list of the ids of the old
  optimized map, in the order of its keys, from the first one that does not.\<close>

definition fileHash_kept :: "state \<Rightarrow> ref \<Rightarrow> ref \<Rightarrow> string \<Rightarrow> bool" where
  "fileHash_kept s metadata newData dep =
     (case map_of (optimized (metas s metadata)) dep of
        None \<Rightarrow> False
      | Some m \<Rightarrow>
          (case map_of (optimized (metas s newData)) dep of
             None \<Rightarrow> False
           | Some n \<Rightarrow> fileHash (infos s m) = fileHash (infos s n)))"

definition first_unkept :: "state \<Rightarrow> ref \<Rightarrow> ref \<Rightarrow> string list" where
  "first_unkept s metadata newData =
     dropWhile (fileHash_kept s metadata newData) (map fst (optimized (metas s metadata)))"

section \<open>Promises, timers and the store\<close>

text \<open>Line 57: \<^verbatim>\<open>scan\<close>.\<close>

definition scan :: "env \<Rightarrow> bool" where
  "scan env = (\<not> isBuild env \<and> devDepsScanner env)"

definition debounceMs :: nat where
  "debounceMs = 100"

definition runOptimizerIfIdleAfterMs :: nat where
  "runOptimizerIfIdleAfterMs = 100"

definition emit :: "effect \<Rightarrow> state \<Rightarrow> state" where
  "emit e s = s\<lparr>effects := effects s @ [e]\<rparr>"

text \<open>Modelled from the spec: \<^verbatim>\<open>newDepOptimizationProcessing\<close> is imported from the
  optimizer's index module, which is not among the sources. Section 4.2: each cycle
  owns one barrier with a single completion signal. The model allocates a new
  promise; a promise is resolved when its reference is in \<open>fulfilled\<close>.\<close>

definition newDepOptimizationProcessing :: "state \<Rightarrow> ref \<times> state" where
  "newDepOptimizationProcessing s = (next_ref s, s\<lparr>next_ref := Suc (next_ref s)\<rparr>)"

definition setTimeout :: "callback \<Rightarrow> nat \<Rightarrow> state \<Rightarrow> ref \<times> state" where
  "setTimeout cb ms s =
     (next_ref s, s\<lparr>timers := timers s @ [(next_ref s, ms, cb)], next_ref := Suc (next_ref s)\<rparr>)"

definition clearTimeout :: "ref \<Rightarrow> state \<Rightarrow> state" where
  "clearTimeout h s = s\<lparr>timers := filter (\<lambda>t. fst t \<noteq> h) (timers s)\<rparr>"

text \<open>\<^verbatim>\<open>if (h) clearTimeout(h)\<close> for a variable holding a timer or undefined.\<close>

definition clear_handle :: "ref option \<Rightarrow> state \<Rightarrow> state" where
  "clear_handle h s = (case h of None \<Rightarrow> s | Some t \<Rightarrow> clearTimeout t s)"

definition alloc_info :: "OptimizedDepInfo \<Rightarrow> state \<Rightarrow> ref \<times> state" where
  "alloc_info v s =
     (next_ref s, s\<lparr>infos := (infos s)(next_ref s := v), next_ref := Suc (next_ref s)\<rparr>)"

fun alloc_infos :: "(string \<times> OptimizedDepInfo) list \<Rightarrow> state \<Rightarrow> dep_map \<times> state" where
  "alloc_infos [] s = ([], s)"
| "alloc_infos ((k, v) # kvs) s =
     (let (r, s1) = alloc_info v s;
          (m, s2) = alloc_infos kvs s1
      in ((k, r) # m, s2))"

definition alloc_metadata :: "bundler_metadata \<Rightarrow> state \<Rightarrow> ref \<times> state" where
  "alloc_metadata b s =
     (let (opt, s1) = alloc_infos (bm_optimized b) s;
          (chk, s2) = alloc_infos (bm_chunks b) s1;
          (dis, s3) = alloc_infos (bm_discovered b) s2
      in (next_ref s3,
          s3\<lparr>metas := (metas s3)(next_ref s3 :=
                \<lparr>hash = bm_hash b, md_browserHash = bm_browserHash b,
                 optimized = opt, chunks = chk, discovered = dis\<rparr>),
             next_ref := Suc (next_ref s3)\<rparr>))"

text \<open>Lines 116 to 122.\<close>

definition resolveEnqueuedProcessingPromises :: "state \<Rightarrow> state" where
  "resolveEnqueuedProcessingPromises s =
     s\<lparr>fulfilled := fulfilled s \<union> set (depOptimizationProcessingQueue s),
       depOptimizationProcessingQueue := []\<rparr>"

datatype kind = Optimized | Discovered | Chunks

text \<open>Modelled from the spec: \<^verbatim>\<open>addOptimizedDepInfo\<close> is imported from the optimizer's
  index module, which is not among the sources. Section 4.1: it inserts the info into
  the sub-map of its kind, under the info's id, and rejects when the id already
  exists in another sub-map; the rejection is an exception.\<close>

definition addOptimizedDepInfo :: "ref \<Rightarrow> kind \<Rightarrow> ref \<Rightarrow> state \<Rightarrow> exn + state" where
  "addOptimizedDepInfo metadata type depInfo s =
     (let m = metas s metadata;
          k = dep_id (infos s depInfo);
          in_opt = k \<in> set (map fst (optimized m));
          in_chk = k \<in> set (map fst (chunks m));
          in_dis = k \<in> set (map fst (discovered m))
      in case type of
           Optimized \<Rightarrow>
             if in_chk \<or> in_dis then Inl (AddRejected k)
             else Inr (s\<lparr>metas := (metas s)(metadata :=
                    m\<lparr>optimized := AList.update k depInfo (optimized m)\<rparr>)\<rparr>)
         | Discovered \<Rightarrow>
             if in_opt \<or> in_chk then Inl (AddRejected k)
             else Inr (s\<lparr>metas := (metas s)(metadata :=
                    m\<lparr>discovered := AList.update k depInfo (discovered m)\<rparr>)\<rparr>)
         | Chunks \<Rightarrow>
             if in_opt \<or> in_dis then Inl (AddRejected k)
             else Inr (s\<lparr>metas := (metas s)(metadata :=
                    m\<lparr>chunks := AList.update k depInfo (chunks m)\<rparr>)\<rparr>))"

text \<open>Lines 100 to 112.\<close>

definition logNewlyDiscoveredDeps :: "state \<Rightarrow> state" where
  "logNewlyDiscoveredDeps s =
     (if newDepsToLog s \<noteq> []
      then (emit (LoggerInfo (NewDepsOptimized (newDepsToLog s))) s)\<lparr>newDepsToLog := []\<rparr>
      else s)"

text \<open>Lines 403 to 415.\<close>

definition fullReload :: "env \<Rightarrow> state \<Rightarrow> state" where
  "fullReload env s =
     (if has_server env then emit WsSendFullReload (emit InvalidateAll s) else s)"

section \<open>The rerun executor\<close>

text \<open>A rerun is suspended twice: while the bundler runs, and while the bundler's
  \<^verbatim>\<open>commit\<close> runs. A frame holds the local variables of the suspended call.\<close>

record run_frame =
  fr_isRerun :: bool
  fr_metadata :: ref

record commit_frame = run_frame +
  fr_newData :: ref
  fr_needsReload :: bool
  fr_needsInteropMismatch :: "string list"

datatype outcome = AwaitCommit commit_frame | Finished "run_frame option"

text \<open>Lines 225 to 235: the clones handed to the bundler.\<close>

definition clone_optimized :: "state \<Rightarrow> ref \<Rightarrow>
    string \<Rightarrow> (string \<times> OptimizedDepInfo) list \<Rightarrow> (string \<times> OptimizedDepInfo) list" where
  "clone_optimized s metadata dep newDeps =
     (case map_of (optimized (metas s metadata)) dep of
        None \<Rightarrow> newDeps
      | Some r \<Rightarrow> AList.update dep (infos s r) newDeps)"

definition clone_discovered :: "state \<Rightarrow> ref \<Rightarrow>
    string \<Rightarrow> (string \<times> OptimizedDepInfo) list \<Rightarrow> (string \<times> OptimizedDepInfo) list" where
  "clone_discovered s metadata dep newDeps =
     (case map_of (discovered (metas s metadata)) dep of
        None \<Rightarrow> newDeps
      | Some r \<Rightarrow> AList.update dep ((infos s r)\<lparr>processing := None\<rparr>) newDeps)"

definition build_newDeps :: "state \<Rightarrow> ref \<Rightarrow> (string \<times> OptimizedDepInfo) list" where
  "build_newDeps s metadata =
     fold (clone_discovered s metadata) (map fst (discovered (metas s metadata)))
       (fold (clone_optimized s metadata) (map fst (optimized (metas s metadata))) [])"

text \<open>Lines 194 to 248: \<^verbatim>\<open>runOptimizer\<close> up to the call of the bundler. The result
  is the frame of the suspended call, or nothing when it returned.\<close>

definition runOptimizer_start :: "env \<Rightarrow> state \<Rightarrow> state \<times> run_frame option" where
  "runOptimizer_start env s =
     (let isRerun = firstRunCalled s;
          s1 = s\<lparr>firstRunCalled := True, enqueuedRerun := False\<rparr>;
          s2 = clear_handle (handle s1) s1
      in if discovered (metas s2 (cur_metadata s2)) = []
         then (s2\<lparr>currentlyProcessing := False\<rparr>, None)
         else
           let s3 = s2\<lparr>currentlyProcessing := True\<rparr>;
               metadata = cur_metadata s3;
               newDeps = build_newDeps s3 metadata;
               s4 = s3\<lparr>newDepsDiscovered := False,
                      depOptimizationProcessingQueue :=
                        depOptimizationProcessingQueue s3 @ [depOptimizationProcessing s3]\<rparr>;
               (p, s5) = newDepOptimizationProcessing s4;
               s6 = s5\<lparr>depOptimizationProcessing := p\<rparr>
           in (emit (RunOptimizeDeps newDeps) s6,
               Some \<lparr>fr_isRerun = isRerun, fr_metadata = metadata\<rparr>))"

text \<open>Lines 417 to 425.\<close>

definition rerun :: "env \<Rightarrow> state \<Rightarrow> state \<times> run_frame option" where
  "rerun env s = runOptimizer_start env s"

text \<open>Lines 398 to 400.\<close>

definition runOptimizer_finish :: "env \<Rightarrow> state \<Rightarrow> state \<times> run_frame option" where
  "runOptimizer_finish env s =
     (let s1 = s\<lparr>currentlyProcessing := False\<rparr>
      in if enqueuedRerun s1 then rerun env s1 else (s1, None))"

text \<open>Lines 387 to 396: the handler of the rerun, for the local \<^verbatim>\<open>metadata\<close>.\<close>

definition runOptimizer_catch :: "ref \<Rightarrow> exn \<Rightarrow> state \<Rightarrow> state" where
  "runOptimizer_catch metadata e s =
     (let s1 = emit (LoggerError (ErrorWhileUpdating e)) s;
          s2 = resolveEnqueuedProcessingPromises s1
      in s2\<lparr>metas := (metas s2)(metadata := (metas s2 metadata)\<lparr>discovered := []\<rparr>)\<rparr>)"

text \<open>Lines 248 to 357, from the return of the bundler to the call of its
  \<^verbatim>\<open>commit\<close> or \<^verbatim>\<open>cancel\<close>. The bundler's metadata enters the store as new objects.\<close>

definition runOptimizer_bundled ::
    "env \<Rightarrow> run_frame \<Rightarrow> exn + bundler_metadata \<Rightarrow> state \<Rightarrow> state \<times> outcome" where
  "runOptimizer_bundled env fr processingResult s =
     (case processingResult of
        Inl e \<Rightarrow>
          (let (s', nxt) = runOptimizer_finish env (runOptimizer_catch (fr_metadata fr) e s)
           in (s', Finished nxt))
      | Inr b \<Rightarrow>
          (let (newData, s1) = alloc_metadata b s;
               mismatch = needsInteropMismatch s1 (fr_metadata fr) newData
           in case needsReload s1 (fr_metadata fr) newData of
                Inl e \<Rightarrow>
                  (let (s', nxt) =
                         runOptimizer_finish env (runOptimizer_catch (fr_metadata fr) e s1)
                   in (s', Finished nxt))
              | Inr reload \<Rightarrow>
                  if reload \<and> newDepsDiscovered s1
                  then (let (s', nxt) = runOptimizer_finish env (emit (BundlerCancel newData) s1)
                        in (s', Finished nxt))
                  else (emit (BundlerCommit newData) s1,
                        AwaitCommit \<lparr>fr_isRerun = fr_isRerun fr, fr_metadata = fr_metadata fr,
                          fr_newData = newData, fr_needsReload = reload,
                          fr_needsInteropMismatch = mismatch\<rparr>)))"

text \<open>Lines 286 to 290: the ids discovered while the bundler ran stay discovered.\<close>

fun keep_discovered :: "ref \<Rightarrow> ref \<Rightarrow> string list \<Rightarrow> state \<Rightarrow> exn \<times> state + state" where
  "keep_discovered metadata newData [] s = Inr s"
| "keep_discovered metadata newData (i # ids) s =
     (case map_of (optimized (metas s newData)) i of
        Some n \<Rightarrow> keep_discovered metadata newData ids s
      | None \<Rightarrow>
          (case map_of (discovered (metas s metadata)) i of
             None \<Rightarrow> Inl (TypeError, s)
           | Some d \<Rightarrow>
               (case addOptimizedDepInfo newData Discovered d s of
                  Inl e \<Rightarrow> Inl (e, s)
                | Inr s1 \<Rightarrow> keep_discovered metadata newData ids s1)))"

definition set_browserHash :: "ref \<Rightarrow> string option \<Rightarrow> state \<Rightarrow> state" where
  "set_browserHash r h s = s\<lparr>infos := (infos s)(r := (infos s r)\<lparr>browserHash := h\<rparr>)\<rparr>"

text \<open>Lines 295 to 297.\<close>

fun keep_chunks_browserHash :: "ref \<Rightarrow> ref \<Rightarrow> string list \<Rightarrow> state \<Rightarrow> state" where
  "keep_chunks_browserHash metadata newData [] s = s"
| "keep_chunks_browserHash metadata newData (dep # deps) s =
     (case map_of (chunks (metas s newData)) dep of
        None \<Rightarrow> keep_chunks_browserHash metadata newData deps s
      | Some c \<Rightarrow>
          keep_chunks_browserHash metadata newData deps
            (set_browserHash c (Some (md_browserHash (metas s metadata))) s))"

text \<open>Lines 298 to 302: \<^verbatim>\<open>(metadata.optimized[dep] || metadata.discovered[dep])\<close> is
  undefined for an id that neither map has, and reading its \<^verbatim>\<open>browserHash\<close> throws.\<close>

definition optimized_or_discovered :: "state \<Rightarrow> ref \<Rightarrow> string \<Rightarrow> ref option" where
  "optimized_or_discovered s metadata dep =
     (case map_of (optimized (metas s metadata)) dep of
        Some r \<Rightarrow> Some r
      | None \<Rightarrow> map_of (discovered (metas s metadata)) dep)"

fun keep_optimized_browserHash ::
    "ref \<Rightarrow> ref \<Rightarrow> string list \<Rightarrow> state \<Rightarrow> exn \<times> state + state" where
  "keep_optimized_browserHash metadata newData [] s = Inr s"
| "keep_optimized_browserHash metadata newData (dep # deps) s =
     (case map_of (optimized (metas s newData)) dep of
        None \<Rightarrow> Inl (TypeError, s)
      | Some n \<Rightarrow>
          (case optimized_or_discovered s metadata dep of
             None \<Rightarrow> Inl (TypeError, s)
           | Some old \<Rightarrow>
               keep_optimized_browserHash metadata newData deps
                 (set_browserHash n (browserHash (infos s old)) s)))"

text \<open>Lines 293 to 303.\<close>

definition keep_browserHash :: "commit_frame \<Rightarrow> state \<Rightarrow> exn \<times> state + state" where
  "keep_browserHash fr s =
     (if \<not> fr_needsReload fr
      then
        (let metadata = fr_metadata fr;
             newData = fr_newData fr;
             s1 = s\<lparr>metas := (metas s)(newData :=
                    (metas s newData)\<lparr>md_browserHash := md_browserHash (metas s metadata)\<rparr>)\<rparr>;
             s2 = keep_chunks_browserHash metadata newData
                    (map fst (chunks (metas s1 newData))) s1
         in keep_optimized_browserHash metadata newData
              (map fst (optimized (metas s2 newData))) s2)
      else Inr s)"

text \<open>Lines 308 to 317: the discovered entries that callers hold receive the hashes
  and the interop flag of the optimized entries.\<close>

fun commit_to_discovered :: "ref \<Rightarrow> ref \<Rightarrow> string list \<Rightarrow> state \<Rightarrow> state" where
  "commit_to_discovered metadata newData [] s = s"
| "commit_to_discovered metadata newData (k # ks) s =
     (case map_of (discovered (metas s metadata)) k of
        None \<Rightarrow> commit_to_discovered metadata newData ks s
      | Some d \<Rightarrow>
          (case map_of (optimized (metas s newData)) k of
             None \<Rightarrow> commit_to_discovered metadata newData ks s
           | Some n \<Rightarrow>
               commit_to_discovered metadata newData ks
                 (s\<lparr>infos := (infos s)(d := (infos s d)\<lparr>
                      needsInterop := needsInterop (infos s n),
                      browserHash := browserHash (infos s n),
                      fileHash := fileHash (infos s n),
                      processing := None\<rparr>)\<rparr>)))"

text \<open>Lines 281 to 329, after the bundler's \<^verbatim>\<open>commit\<close> has returned. An exception
  leaves the store as it was when it was thrown.\<close>

definition commitProcessing :: "commit_frame \<Rightarrow> state \<Rightarrow> exn \<times> state + state" where
  "commitProcessing fr s =
     (let metadata = fr_metadata fr;
          newData = fr_newData fr
      in case keep_discovered metadata newData (map fst (discovered (metas s metadata))) s of
           Inl x \<Rightarrow> Inl x
         | Inr s1 \<Rightarrow>
             (case keep_browserHash fr s1 of
                Inl x \<Rightarrow> Inl x
              | Inr s2 \<Rightarrow>
                  (let s3 = commit_to_discovered metadata newData
                              (map fst (optimized (metas s2 newData))) s2;
                       s4 = (if fr_isRerun fr
                             then s3\<lparr>newDepsToLog := newDepsToLog s3 @
                                    filter (\<lambda>dep. map_of (optimized (metas s3 metadata)) dep = None)
                                      (map fst (optimized (metas s3 newData)))\<rparr>
                             else s3);
                       s5 = s4\<lparr>cur_metadata := newData\<rparr>
                   in Inr (resolveEnqueuedProcessingPromises s5))))"

text \<open>Lines 331 to 386 after \<^verbatim>\<open>commitProcessing\<close>, on each of its two call sites.\<close>

definition after_commit :: "env \<Rightarrow> commit_frame \<Rightarrow> state \<Rightarrow> state" where
  "after_commit env fr s =
     (if \<not> fr_needsReload fr
      then
        (if \<not> isDebugEnabled env
         then (let s1 = clear_handle (newDepsToLogHandle s) s;
                   (h, s2) = setTimeout LogDepsTimer (2 * debounceMs) s1
               in s2\<lparr>newDepsToLogHandle := Some h\<rparr>)
         else s)
      else
        (let s1 = (if \<not> isDebugEnabled env
                   then logNewlyDiscoveredDeps
                          ((clear_handle (newDepsToLogHandle s) s)\<lparr>newDepsToLogHandle := None\<rparr>)
                   else s);
             s2 = emit (LoggerInfo OptimizedDepsChanged) s1;
             s3 = (if fr_needsInteropMismatch fr \<noteq> []
                   then emit (LoggerWarn (MixedEsmCjs (fr_needsInteropMismatch fr))) s2
                   else s2)
         in fullReload env s3))"

text \<open>The rerun from the return of the bundler's \<^verbatim>\<open>commit\<close> to its end.\<close>

definition runOptimizer_committed ::
    "env \<Rightarrow> commit_frame \<Rightarrow> exn + unit \<Rightarrow> state \<Rightarrow> state \<times> run_frame option" where
  "runOptimizer_committed env fr committed s =
     (case committed of
        Inl e \<Rightarrow> runOptimizer_finish env (runOptimizer_catch (fr_metadata fr) e s)
      | Inr u \<Rightarrow>
          (case commitProcessing fr s of
             Inl (e, s1) \<Rightarrow> runOptimizer_finish env (runOptimizer_catch (fr_metadata fr) e s1)
           | Inr s1 \<Rightarrow> runOptimizer_finish env (after_commit env fr s1)))"

section \<open>The debounced scheduler and the discovery registry\<close>

text \<open>Lines 503 to 517. The callback of the timer is \<open>RerunTimer\<close>.\<close>

definition debouncedProcessing :: "nat \<Rightarrow> state \<Rightarrow> state" where
  "debouncedProcessing timeout s =
     (let s1 = s\<lparr>enqueuedRerun := False\<rparr>;
          s2 = clear_handle (handle s1) s1;
          s3 = (clear_handle (newDepsToLogHandle s2) s2)\<lparr>newDepsToLogHandle := None\<rparr>;
          (h, s4) = setTimeout RerunTimer timeout s3
      in s4\<lparr>handle := Some h\<rparr>)"

text \<open>Lines 510 to 516: the callback of that timer.\<close>

definition rerun_timer :: "env \<Rightarrow> state \<Rightarrow> state \<times> run_frame option" where
  "rerun_timer env s =
     (let s1 = s\<lparr>handle := None, enqueuedRerun := True\<rparr>
      in if \<not> currentlyProcessing s1 then rerun env s1 else (s1, None))"

text \<open>Line 78: \<^verbatim>\<open>run\<close>.\<close>

definition run :: "state \<Rightarrow> state" where
  "run s = debouncedProcessing 0 s"

text \<open>Lines 427 to 435; the two serialised maps are those of
  \<^verbatim>\<open>depsFromOptimizedDepInfo\<close>, whose source is not given: \<open>stringify_deps\<close> stands
  for \<^verbatim>\<open>JSON.stringify(depsFromOptimizedDepInfo(...))\<close>.\<close>

definition deps_of :: "state \<Rightarrow> dep_map \<Rightarrow> (string \<times> OptimizedDepInfo) list" where
  "deps_of s m = map (\<lambda>(k, r). (k, infos s r)) m"

definition getDiscoveredBrowserHash :: "env \<Rightarrow> state \<Rightarrow> ref \<Rightarrow> string" where
  "getDiscoveredBrowserHash env s metadata =
     getHash env (hash (metas s metadata) @
       stringify_deps env (deps_of s (optimized (metas s metadata))) @
       stringify_deps env (deps_of s (discovered (metas s metadata))) @
       sessionTimestamp env)"

text \<open>Lines 437 to 501. The result is the reference of the returned info.\<close>

definition registerMissingImport ::
    "env \<Rightarrow> string \<Rightarrow> string \<Rightarrow> bool option \<Rightarrow> state \<Rightarrow> exn + ref \<times> state" where
  "registerMissingImport env i resolved ssr s =
     (let s1 = (if scanProcessing s \<noteq> None
                then emit (LoggerError RegisteringBeforeScanOver) s else s);
          s2 = (if \<not> isBuild env \<and> ssr = Some True
                then emit (LoggerError (SsrMissingDependency i)) s1 else s1);
          metadata = cur_metadata s2
      in case map_of (optimized (metas s2 metadata)) i of
           Some opt \<Rightarrow> Inr (opt, s2)
         | None \<Rightarrow>
             (case map_of (chunks (metas s2 metadata)) i of
                Some chunk \<Rightarrow> Inr (chunk, s2)
              | None \<Rightarrow>
                  (case map_of (discovered (metas s2 metadata)) i of
                     Some missing \<Rightarrow> Inr (missing, s2)
                   | None \<Rightarrow>
                       (let s3 = s2\<lparr>newDepsDiscovered := True\<rparr>;
                            (missing, s4) = alloc_info
                              \<lparr>dep_id = i,
                               dep_file = getOptimizedDepPath env i ssr,
                               src = Some resolved,
                               needsInterop = None,
                               browserHash = Some (getDiscoveredBrowserHash env s3 metadata),
                               fileHash = None,
                               processing = Some (depOptimizationProcessing s3),
                               exportsData = Some (extractExportsData env resolved)\<rparr> s3
                        in case addOptimizedDepInfo metadata Discovered missing s4 of
                             Inl e \<Rightarrow> Inl e
                           | Inr s5 \<Rightarrow>
                               Inr (missing,
                                    if scan env \<or> firstRunCalled s5
                                    then debouncedProcessing debounceMs s5 else s5)))))"

text \<open>The entry that \<^verbatim>\<open>registerMissingImport\<close> finds for an id, in the order of its
  three lookups, and the errors it logs before them (lines 442 to 451).\<close>

definition known_dep :: "state \<Rightarrow> string \<Rightarrow> ref option" where
  "known_dep s i =
     (case map_of (optimized (metas s (cur_metadata s))) i of
        Some r \<Rightarrow> Some r
      | None \<Rightarrow>
          (case map_of (chunks (metas s (cur_metadata s))) i of
             Some r \<Rightarrow> Some r
           | None \<Rightarrow> map_of (discovered (metas s (cur_metadata s))) i))"

definition registration_errors :: "env \<Rightarrow> string \<Rightarrow> bool option \<Rightarrow> state \<Rightarrow> effect list" where
  "registration_errors env i ssr s =
     (if scanProcessing s \<noteq> None then [LoggerError RegisteringBeforeScanOver] else []) @
     (if \<not> isBuild env \<and> ssr = Some True then [LoggerError (SsrMissingDependency i)] else [])"

section \<open>The idle tracker\<close>

text \<open>Lines 527 to 533.\<close>

definition resetRegisteredIds :: "state \<Rightarrow> state" where
  "resetRegisteredIds s =
     s\<lparr>registeredIds := [], seenIds := {}, workersSources := {}, waitingOn := None,
       firstRunEnsured := False\<rparr>"

text \<open>\<^verbatim>\<open>getDepsOptimizer(config)?.run()\<close>: the optimizer of the main config when the
  config is that of a worker (\<open>mainConfig env = Some b\<close>, \<open>b\<close> telling whether the map
  has it), this optimizer otherwise.\<close>

definition getDepsOptimizer_run :: "env \<Rightarrow> state \<Rightarrow> state" where
  "getDepsOptimizer_run env s =
     (case mainConfig env of
        None \<Rightarrow> run s
      | Some b \<Rightarrow> if b then emit MainOptimizerRun s else s)"

text \<open>Lines 538 to 547, and the callback of the timer.\<close>

definition ensureFirstRun :: "state \<Rightarrow> state" where
  "ensureFirstRun s =
     (let s1 = (if \<not> firstRunEnsured s \<and> \<not> firstRunCalled s \<and> registeredIds s = []
                then snd (setTimeout EnsureFirstRunTimer runOptimizerIfIdleAfterMs s)
                else s)
      in s1\<lparr>firstRunEnsured := True\<rparr>)"

definition ensureFirstRun_timer :: "env \<Rightarrow> state \<Rightarrow> state" where
  "ensureFirstRun_timer env s =
     (if \<not> firstRunCalled s \<and> registeredIds s = [] then getDepsOptimizer_run env s else s)"

text \<open>\<^verbatim>\<open>!waitingOn\<close> holds for undefined and for the empty string.\<close>

definition is_waiting :: "state \<Rightarrow> bool" where
  "is_waiting s = (case waitingOn s of None \<Rightarrow> False | Some w \<Rightarrow> w \<noteq> [])"

text \<open>Lines 572 to 598: \<^verbatim>\<open>pop\<close> takes the last element of \<^verbatim>\<open>registeredIds\<close>; calling
  its \<^verbatim>\<open>done\<close> is the effect \<open>DoneCalled\<close>.\<close>

definition runOptimizerWhenIdle :: "state \<Rightarrow> state" where
  "runOptimizerWhenIdle s =
     (if \<not> is_waiting s
      then (if registeredIds s = [] then s
            else (let next = last (registeredIds s);
                      s1 = s\<lparr>registeredIds := butlast (registeredIds s)\<rparr>;
                      s2 = s1\<lparr>waitingOn := Some (fst next)\<rparr>
                  in emit (DoneCalled (fst next) (snd next)) s2))
      else s)"

text \<open>Lines 577 to 586: \<^verbatim>\<open>afterLoad\<close> of the entry with the id \<open>next_id\<close>.\<close>

definition afterLoad :: "env \<Rightarrow> string \<Rightarrow> state \<Rightarrow> state" where
  "afterLoad env next_id s =
     (let s1 = s\<lparr>waitingOn := None\<rparr>
      in if \<not> firstRunCalled s1 \<and> next_id \<notin> workersSources s1
         then (if registeredIds s1 \<noteq> [] then runOptimizerWhenIdle s1
               else getDepsOptimizer_run env s1)
         else s1)"

text \<open>Lines 589 to 595: the promise of \<^verbatim>\<open>done\<close> is fulfilled, or rejected.\<close>

definition done_fulfilled :: "string \<Rightarrow> state \<Rightarrow> state" where
  "done_fulfilled next_id s =
     snd (setTimeout (AfterLoad next_id)
            (if registeredIds s \<noteq> [] then 0 else runOptimizerIfIdleAfterMs) s)"

definition done_rejected :: "env \<Rightarrow> string \<Rightarrow> state \<Rightarrow> state" where
  "done_rejected env next_id s = afterLoad env next_id s"

text \<open>Lines 549 to 558.\<close>

definition registerWorkersSource :: "string \<Rightarrow> state \<Rightarrow> state" where
  "registerWorkersSource i s =
     (let s1 = s\<lparr>workersSources := insert i (workersSources s),
                 registeredIds := filter (\<lambda>registered. fst registered \<noteq> i) (registeredIds s)\<rparr>
      in if waitingOn s1 = Some i then runOptimizerWhenIdle (s1\<lparr>waitingOn := None\<rparr>) else s1)"

text \<open>Lines 560 to 570.\<close>

definition delayDepsOptimizerUntil :: "env \<Rightarrow> string \<Rightarrow> nat \<Rightarrow> state \<Rightarrow> state" where
  "delayDepsOptimizerUntil env i done s =
     (let s1 = (if \<not> isOptimizedDepFile env i \<and> i \<notin> seenIds s
                then runOptimizerWhenIdle
                       (s\<lparr>seenIds := insert i (seenIds s),
                          registeredIds := registeredIds s @ [(i, done)]\<rparr>)
                else s)
      in if has_server env \<and> \<not> optimizeDepsEntriesVisited s1
         then emit PreTransformOptimizeDepsEntries (s1\<lparr>optimizeDepsEntriesVisited := True\<rparr>)
         else s1)"

section \<open>Start-up, the timers and the metadata query\<close>

text \<open>Lines 70 to 76: \<^verbatim>\<open>metadata\<close>; the result is undefined when the slot read was
  never assigned.\<close>

definition depsOptimizer_metadata :: "env \<Rightarrow> state \<Rightarrow> bool \<Rightarrow> ref option" where
  "depsOptimizer_metadata env s ssr =
     (if isBuild env \<or> \<not> ssr then Some (cur_metadata s) else ssrServerDepsMetadata s)"

text \<open>Lines 81 to 82.\<close>

definition getOptimizedDepId :: "env \<Rightarrow> OptimizedDepInfo \<Rightarrow> string" where
  "getOptimizedDepId env depInfo =
     (if isBuild env then dep_file depInfo
      else dep_file depInfo @ ''?v='' @ (case browserHash depInfo of
                                           None \<Rightarrow> ''undefined'' | Some h \<Rightarrow> h))"

text \<open>Lines 141 to 146 and 166 to 171: each info found is cloned with the current
  processing promise and added to the discovered map.\<close>

fun add_discovered :: "ref \<Rightarrow> OptimizedDepInfo list \<Rightarrow> state \<Rightarrow> exn \<times> state + state" where
  "add_discovered md [] s = Inr s"
| "add_discovered md (depInfo # rest) s =
     (let (r, s1) = alloc_info (depInfo\<lparr>processing := Some (depOptimizationProcessing s)\<rparr>) s
      in case addOptimizedDepInfo md Discovered r s1 of
           Inl e \<Rightarrow> Inl (e, s1)
         | Inr s2 \<Rightarrow> add_discovered md rest s2)"

definition empty_state :: state where
  "empty_state =
     \<lparr>infos = (\<lambda>r. \<lparr>dep_id = [], dep_file = [], src = None, needsInterop = None,
                    browserHash = None, fileHash = None, processing = None,
                    exportsData = None\<rparr>),
      metas = (\<lambda>r. \<lparr>hash = [], md_browserHash = [], optimized = [], chunks = [],
                    discovered = []\<rparr>),
      fulfilled = {}, next_ref = 0, timers = [], handle = None,
      ssrServerDepsMetadata = None, cur_metadata = 0, newDepsDiscovered = False,
      newDepsToLog = [], newDepsToLogHandle = None, depOptimizationProcessing = 0,
      depOptimizationProcessingQueue = [], enqueuedRerun = False,
      currentlyProcessing = False, optimizeDepsEntriesVisited = False,
      firstRunCalled = False, scanProcessing = None, registeredIds = [], seenIds = {},
      workersSources = {}, waitingOn = None, firstRunEnsured = False, effects = []\<rparr>"

text \<open>Lines 50 to 192: \<^verbatim>\<open>initDepsOptimizer\<close>, given what its collaborators return:
  \<open>cachedMetadata\<close> from \<^verbatim>\<open>loadCachedDepOptimizationMetadata\<close>, \<open>fresh\<close> from
  \<^verbatim>\<open>initDepsOptimizerMetadata\<close>, \<open>ssrDeps\<close> from \<^verbatim>\<open>optimizeServerSsrDeps\<close> and
  \<open>initial\<close> from \<^verbatim>\<open>initialProjectDependencies\<close>.\<close>

definition initDepsOptimizer :: "env \<Rightarrow> bundler_metadata option \<Rightarrow> bundler_metadata \<Rightarrow>
    bundler_metadata \<Rightarrow> OptimizedDepInfo list \<Rightarrow> exn \<times> state + state" where
  "initDepsOptimizer env cachedMetadata fresh ssrDeps initial =
     (let (m, s1) = alloc_metadata (case cachedMetadata of None \<Rightarrow> fresh | Some c \<Rightarrow> c)
                      empty_state;
          s2 = s1\<lparr>cur_metadata := m\<rparr>;
          s3 = (if \<not> isBuild env \<and> config_ssr env
                then (let (r, s') = alloc_metadata ssrDeps (emit OptimizeServerSsrDeps s2)
                      in s'\<lparr>ssrServerDepsMetadata := Some r\<rparr>)
                else s2);
          (p, s4) = newDepOptimizationProcessing s3;
          s5 = s4\<lparr>depOptimizationProcessing := p,
                 optimizeDepsEntriesVisited := (cachedMetadata \<noteq> None),
                 firstRunCalled := (cachedMetadata \<noteq> None)\<rparr>
      in if cachedMetadata = None
         then (if \<not> scan env then add_discovered m initial s5
               else (let s6 = s5\<lparr>currentlyProcessing := True\<rparr>;
                         (sp, s7) = newDepOptimizationProcessing s6;
                         s8 = s7\<lparr>scanProcessing := Some sp\<rparr>
                     in Inr (snd (setTimeout ScanTimer 0 s8))))
         else Inr s5)"

text \<open>Lines 154 to 190: the callback of the scan timer up to the call of the scanner,
  and from the scanner's return on. Its frame is the local \<^verbatim>\<open>metadata\<close>; \<open>sp\<close> is the
  promise \<^verbatim>\<open>scanPhaseProcessing\<close> of line 151.\<close>

definition scan_timer :: "state \<Rightarrow> state \<times> ref" where
  "scan_timer s = (emit DiscoverProjectDependencies s, cur_metadata s)"

definition scan_catch :: "ref \<Rightarrow> exn \<Rightarrow> state \<Rightarrow> state" where
  "scan_catch sp e s =
     (let s1 = emit (LoggerError (ScanFailed e)) s
      in if scanProcessing s1 \<noteq> None
         then s1\<lparr>fulfilled := insert sp (fulfilled s1), scanProcessing := None\<rparr>
         else s1)"

definition scan_returned ::
    "env \<Rightarrow> ref \<Rightarrow> ref \<Rightarrow> exn + OptimizedDepInfo list \<Rightarrow> state \<Rightarrow>
     state \<times> run_frame option" where
  "scan_returned env md sp found s =
     (case found of
        Inl e \<Rightarrow> (scan_catch sp e s, None)
      | Inr deps \<Rightarrow>
          (case add_discovered md deps s of
             Inl (e, s1) \<Rightarrow> (scan_catch sp e s1, None)
           | Inr s1 \<Rightarrow>
               runOptimizer_start env
                 (s1\<lparr>fulfilled := insert sp (fulfilled s1), scanProcessing := None\<rparr>)))"

text \<open>Lines 336 to 339: the callback of the timer that logs the new dependencies.\<close>

definition logDeps_timer :: "state \<Rightarrow> state" where
  "logDeps_timer s = logNewlyDiscoveredDeps (s\<lparr>newDepsToLogHandle := None\<rparr>)"

text \<open>The event loop runs the callback of a pending timer and drops the timer.\<close>

definition fire_timer :: "env \<Rightarrow> ref \<Rightarrow> state \<Rightarrow> state \<times> run_frame option" where
  "fire_timer env h s =
     (case find (\<lambda>t. fst t = h) (timers s) of
        None \<Rightarrow> (s, None)
      | Some (t, ms, cb) \<Rightarrow>
          (let s1 = clearTimeout h s
           in case cb of
                RerunTimer \<Rightarrow> rerun_timer env s1
              | LogDepsTimer \<Rightarrow> (logDeps_timer s1, None)
              | AfterLoad next_id \<Rightarrow> (afterLoad env next_id s1, None)
              | EnsureFirstRunTimer \<Rightarrow> (ensureFirstRun_timer env s1, None)
              | ScanTimer \<Rightarrow> (fst (scan_timer s1), None)))"

section \<open>The optimizer as a transition system\<close>

text \<open>One step is one call of the interface, one callback of a timer or of a promise,
  or the resumption of a suspended rerun or scan. A resumption is taken with any
  frame, which only adds behaviours.\<close>

inductive step :: "env \<Rightarrow> state \<Rightarrow> state \<Rightarrow> bool" for env :: env where
  step_register: "registerMissingImport env i resolved ssr s = Inr (r, s') \<Longrightarrow> step env s s'"
| step_run: "step env s (run s)"
| step_workers: "step env s (registerWorkersSource i s)"
| step_delay: "step env s (delayDepsOptimizerUntil env i done s)"
| step_reset: "step env s (resetRegisteredIds s)"
| step_ensure: "step env s (ensureFirstRun s)"
| step_timer: "step env s (fst (fire_timer env h s))"
| step_done_fulfilled: "step env s (done_fulfilled i s)"
| step_done_rejected: "step env s (done_rejected env i s)"
| step_scanned: "step env s (fst (scan_returned env md sp found s))"
| step_bundled: "step env s (fst (runOptimizer_bundled env fr processingResult s))"
| step_committed: "step env s (fst (runOptimizer_committed env cf committed s))"

definition steps :: "env \<Rightarrow> state \<Rightarrow> state \<Rightarrow> bool" where
  "steps env = (step env)\<^sup>*\<^sup>*"

text \<open>What can happen while a rerun waits for the bundler: the calls of the
  interface and the callbacks of the timers and of the promises of \<^verbatim>\<open>done\<close>. The
  resumptions of a rerun and of the scan are not among them: one rerun runs at a time
  (\<^verbatim>\<open>currentlyProcessing\<close>), and it starts after the scan.\<close>

inductive interleaved :: "env \<Rightarrow> state \<Rightarrow> state \<Rightarrow> bool" for env :: env where
  il_register: "registerMissingImport env i resolved ssr s = Inr (r, s') \<Longrightarrow> interleaved env s s'"
| il_run: "interleaved env s (run s)"
| il_workers: "interleaved env s (registerWorkersSource i s)"
| il_delay: "interleaved env s (delayDepsOptimizerUntil env i done s)"
| il_reset: "interleaved env s (resetRegisteredIds s)"
| il_ensure: "interleaved env s (ensureFirstRun s)"
| il_timer: "interleaved env s (fst (fire_timer env h s))"
| il_done_fulfilled: "interleaved env s (done_fulfilled i s)"
| il_done_rejected: "interleaved env s (done_rejected env i s)"

text \<open>Any number of them.\<close>

definition bundling :: "env \<Rightarrow> state \<Rightarrow> state \<Rightarrow> bool" where
  "bundling env = (interleaved env)\<^sup>*\<^sup>*"

text \<open>The identifiers of the pending timers were handed out by the store.\<close>

definition timers_allocated :: "state \<Rightarrow> bool" where
  "timers_allocated s \<longleftrightarrow> (\<forall>t \<in> set (timers s). fst t < next_ref s)"

text \<open>A rerun is scheduled: \<^verbatim>\<open>enqueuedRerun\<close> is set, or the timer that \<^verbatim>\<open>handle\<close>
  holds is pending and its callback is that of \<^verbatim>\<open>debouncedProcessing\<close>.\<close>

definition rerun_scheduled :: "state \<Rightarrow> bool" where
  "rerun_scheduled s \<longleftrightarrow>
     enqueuedRerun s \<or>
     (case handle s of
        None \<Rightarrow> False
      | Some h \<Rightarrow>
          (case find (\<lambda>t. fst t = h) (timers s) of
             None \<Rightarrow> False
           | Some (t, ms, cb) \<Rightarrow> cb = RerunTimer))"

text \<open>What holds while a rerun waits for the bundler: the rerun is marked as running,
  the snapshot is allocated and has discovered dependencies, and a dependency
  discovered since the start of the rerun has scheduled the next one.\<close>

definition awaiting_bundler :: "state \<Rightarrow> bool" where
  "awaiting_bundler s \<longleftrightarrow>
     currentlyProcessing s \<and> firstRunCalled s \<and> timers_allocated s \<and>
     cur_metadata s < next_ref s \<and> discovered (metas s (cur_metadata s)) \<noteq> [] \<and>
     (newDepsDiscovered s \<longrightarrow> rerun_scheduled s)"

text \<open>Two states that differ at most in the store.\<close>

definition only_store :: "state \<Rightarrow> state \<Rightarrow> bool" where
  "only_store s s' \<longleftrightarrow> (\<exists>i m n. s' = s\<lparr>infos := i, metas := m, next_ref := n\<rparr>)"

text \<open>What no step undoes: the slot of the SSR metadata stays as it is, a fulfilled
  promise stays fulfilled, and a promise leaves the queue only fulfilled.\<close>

definition keeps :: "state \<Rightarrow> state \<Rightarrow> bool" where
  "keeps s s' \<longleftrightarrow>
     ssrServerDepsMetadata s' = ssrServerDepsMetadata s \<and>
     fulfilled s \<subseteq> fulfilled s' \<and>
     set (depOptimizationProcessingQueue s) \<subseteq>
       set (depOptimizationProcessingQueue s') \<union> fulfilled s'"

text \<open>The calls that make the browser reload.\<close>

fun reload_effect :: "effect \<Rightarrow> bool" where
  "reload_effect InvalidateAll = True"
| "reload_effect WsSendFullReload = True"
| "reload_effect e = False"

text \<open>Every entry of the discovered map is filed under its own id.\<close>

definition discovered_keyed :: "state \<Rightarrow> ref \<Rightarrow> bool" where
  "discovered_keyed s md \<longleftrightarrow>
     (\<forall>(k, r) \<in> set (discovered (metas s md)). dep_id (infos s r) = k)"

text \<open>The metadata of the bundler is made of objects of its own: it is not the
  snapshot, no two of its optimized ids share an info, none of its chunks is one of
  its optimized infos, and none of its optimized infos or chunks is an info of the
  snapshot.\<close>

definition fresh_result :: "state \<Rightarrow> ref \<Rightarrow> ref \<Rightarrow> bool" where
  "fresh_result s md nd \<longleftrightarrow>
     nd \<noteq> md \<and> distinct (map snd (optimized (metas s nd))) \<and>
     snd ` set (optimized (metas s nd)) \<inter> snd ` set (chunks (metas s nd)) = {} \<and>
     (snd ` set (optimized (metas s nd)) \<union> snd ` set (chunks (metas s nd))) \<inter>
     (snd ` set (optimized (metas s md)) \<union> snd ` set (discovered (metas s md))) = {}"

text \<open>Every chunk of a snapshot carries the \<^verbatim>\<open>browserHash\<close> of the snapshot.\<close>

definition chunks_current :: "state \<Rightarrow> ref \<Rightarrow> bool" where
  "chunks_current s md \<longleftrightarrow>
     (\<forall>(k, c) \<in> set (chunks (metas s md)).
        browserHash (infos s c) = Some (md_browserHash (metas s md)))"

text \<open>Every optimized id of the bundler's metadata is optimized or discovered in the
  snapshot.\<close>

definition within_known :: "state \<Rightarrow> ref \<Rightarrow> ref \<Rightarrow> bool" where
  "within_known s md nd \<longleftrightarrow>
     (\<forall>dep \<in> set (map fst (optimized (metas s nd))).
        optimized_or_discovered s md dep \<noteq> None)"


text \<open>What the handler of a rerun leaves when it caught \<open>e\<close>: the error is logged,
  the resolve-queue is drained and its promises fulfilled, the discovered map of the
  snapshot is empty and \<^verbatim>\<open>_metadata\<close> is not swapped.\<close>

definition error_path :: "exn \<Rightarrow> state \<Rightarrow> state \<Rightarrow> bool" where
  "error_path e s s' \<longleftrightarrow>
     effects s' = effects s @ [LoggerError (ErrorWhileUpdating e)] \<and>
     depOptimizationProcessingQueue s' = [] \<and>
     set (depOptimizationProcessingQueue s) \<subseteq> fulfilled s' \<and>
     discovered (metas s' (cur_metadata s')) = [] \<and>
     cur_metadata s' = cur_metadata s"

section \<open>A session to evaluate the model on\<close>

definition demo_env :: env where
  "demo_env =
     \<lparr>isBuild = False, devDepsScanner = False, has_server = True, config_ssr = False,
      mainConfig = None, isDebugEnabled = False, sessionTimestamp = ''t'',
      getHash = (\<lambda>x. x), getOptimizedDepPath = (\<lambda>i ssr. ''/deps/'' @ i),
      extractExportsData = length, isOptimizedDepFile = (\<lambda>i. take 6 i = ''/deps/''),
      stringify_deps = (\<lambda>ds. concat (map fst ds))\<rparr>"

definition demo_info :: "string \<Rightarrow> string option \<Rightarrow> string \<Rightarrow> bool option \<Rightarrow> OptimizedDepInfo" where
  "demo_info i fh bh interop =
     \<lparr>dep_id = i, dep_file = ''/deps/'' @ i, src = Some (''/src/'' @ i),
      needsInterop = interop, browserHash = Some bh, fileHash = fh, processing = None,
      exportsData = None\<rparr>"

text \<open>A rerun waits for the bundler: \<open>vue\<close> is optimized, \<open>lodash\<close> was discovered.\<close>

definition demo_running :: state where
  "demo_running =
     empty_state\<lparr>
       infos := (infos empty_state)
         (0 := demo_info ''vue'' (Some ''f1'') ''b0'' (Some False),
          3 := (demo_info ''lodash'' None ''hvuet'' None)\<lparr>processing := Some 2\<rparr>),
       metas := (metas empty_state)
         (1 := \<lparr>hash = ''h'', md_browserHash = ''b0'', optimized = [(''vue'', 0)],
                chunks = [], discovered = [(''lodash'', 3)]\<rparr>),
       next_ref := 6, cur_metadata := 1, depOptimizationProcessing := 5,
       depOptimizationProcessingQueue := [2], currentlyProcessing := True,
       optimizeDepsEntriesVisited := True, firstRunCalled := True\<rparr>"

text \<open>The timer of the scheduler has fired and the rerun is about to start; the rerun
  has started; \<open>axios\<close> is registered while the bundler runs.\<close>

definition demo_idle :: state where
  "demo_idle =
     demo_running\<lparr>next_ref := 5, depOptimizationProcessing := 2,
       depOptimizationProcessingQueue := [], currentlyProcessing := False,
       enqueuedRerun := True\<rparr>"

definition demo_started :: state where
  "demo_started = fst (runOptimizer_start demo_env demo_idle)"

definition demo_discovering :: state where
  "demo_discovering =
     snd (projr (registerMissingImport demo_env ''axios'' ''/src/axios'' None demo_started))"

text \<open>A cold start without scanner and without cache: nothing is discovered yet.\<close>

definition demo_cold :: state where
  "demo_cold =
     empty_state\<lparr>
       metas := (metas empty_state)
         (0 := \<lparr>hash = ''h'', md_browserHash = ''b0'', optimized = [], chunks = [],
                discovered = []\<rparr>),
       next_ref := 2, cur_metadata := 0, depOptimizationProcessing := 1\<rparr>"

definition demo_frame :: run_frame where
  "demo_frame = \<lparr>fr_isRerun = True, fr_metadata = 1\<rparr>"

text \<open>The rerun after the bundler returned \<open>demo_unchanged\<close> (defined next) and its
  \<^verbatim>\<open>commit\<close> was called.\<close>

definition demo_commit :: commit_frame where
  "demo_commit =
     \<lparr>fr_isRerun = True, fr_metadata = 1, fr_newData = 9, fr_needsReload = False,
      fr_needsInteropMismatch = []\<rparr>"

text \<open>Two results of the bundler: one keeps the file of \<open>vue\<close>, one changes it.\<close>

definition demo_unchanged :: bundler_metadata where
  "demo_unchanged =
     \<lparr>bm_hash = ''h'', bm_browserHash = ''b1'',
      bm_optimized = [(''vue'', demo_info ''vue'' (Some ''f1'') ''b1'' (Some False)),
                      (''lodash'', demo_info ''lodash'' (Some ''f2'') ''b1'' (Some False))],
      bm_chunks = [(''chunk-1'', demo_info ''chunk-1'' (Some ''f3'') ''b1'' None)],
      bm_discovered = []\<rparr>"

text \<open>The same rerun on a snapshot that has a chunk.\<close>

definition demo_chunked :: state where
  "demo_chunked =
     demo_running\<lparr>
       infos := (infos demo_running)(4 := demo_info ''chunk-1'' (Some ''f3'') ''b0'' None),
       metas := (metas demo_running)
         (1 := \<lparr>hash = ''h'', md_browserHash = ''b0'', optimized = [(''vue'', 0)],
                chunks = [(''chunk-1'', 4)], discovered = [(''lodash'', 3)]\<rparr>)\<rparr>"

definition demo_bundled :: state where
  "demo_bundled = fst (runOptimizer_bundled demo_env demo_frame (Inr demo_unchanged) demo_chunked)"

text \<open>A result of the bundler under another hash, which lacks \<open>vue\<close>.\<close>

definition demo_rehashed :: bundler_metadata where
  "demo_rehashed =
     \<lparr>bm_hash = ''h2'', bm_browserHash = ''b2'',
      bm_optimized = [(''lodash'', demo_info ''lodash'' (Some ''f2'') ''b2'' (Some False))],
      bm_chunks = [], bm_discovered = []\<rparr>"

text \<open>The same under the hash of the snapshot.\<close>

definition demo_lost :: bundler_metadata where
  "demo_lost = demo_rehashed\<lparr>bm_hash := ''h''\<rparr>"

definition demo_changed :: bundler_metadata where
  "demo_changed =
     \<lparr>bm_hash = ''h'', bm_browserHash = ''b1'',
      bm_optimized = [(''vue'', demo_info ''vue'' (Some ''f1x'') ''b1'' (Some False)),
                      (''lodash'', demo_info ''lodash'' (Some ''f2'') ''b1'' (Some False))],
      bm_chunks = [], bm_discovered = []\<rparr>"

text \<open>A snapshot with two optimized ids, \<open>vue\<close> before \<open>react\<close>, and a result of the
  bundler under the same hash that lacks \<open>vue\<close> and changes the file of \<open>react\<close>.\<close>

definition demo_pair :: state where
  "demo_pair =
     demo_running\<lparr>
       infos := (infos demo_running)(4 := demo_info ''react'' (Some ''f4'') ''b0'' (Some False)),
       metas := (metas demo_running)
         (1 := \<lparr>hash = ''h'', md_browserHash = ''b0'',
                optimized = [(''vue'', 0), (''react'', 4)],
                chunks = [], discovered = [(''lodash'', 3)]\<rparr>)\<rparr>"

definition demo_partial :: bundler_metadata where
  "demo_partial =
     \<lparr>bm_hash = ''h'', bm_browserHash = ''b1'',
      bm_optimized = [(''react'', demo_info ''react'' (Some ''f4x'') ''b1'' (Some False)),
                      (''lodash'', demo_info ''lodash'' (Some ''f2'') ''b1'' (Some False))],
      bm_chunks = [], bm_discovered = []\<rparr>"

section \<open>Properties of the reload decision\<close>

lemma map_of_key_Some:
  "k \<in> fst ` set al \<Longrightarrow> \<exists>v. map_of al k = Some v"
  by (cases "map_of al k") (auto simp: map_of_eq_None_iff)

lemma fileHash_changed_Inr:
  assumes "fileHash_changed s md nd ks = Inr b"
    and "set ks \<subseteq> fst ` set (optimized (metas s md))"
  shows "b = (\<exists>dep \<in> set ks. \<exists>m n. map_of (optimized (metas s md)) dep = Some m \<and>
                map_of (optimized (metas s nd)) dep = Some n \<and>
                fileHash (infos s n) \<noteq> fileHash (infos s m))"
  using assms
proof (induction ks)
  case Nil
  then show ?case by simp
next
  case (Cons k ks)
  then show ?case
    by (auto split: option.splits if_splits)
qed

lemma fileHash_changed_Inl:
  assumes "fileHash_changed s md nd ks = Inl e"
    and "set ks \<subseteq> fst ` set (optimized (metas s md))"
  shows "e = TypeError \<and> (\<exists>dep \<in> set ks. map_of (optimized (metas s nd)) dep = None)"
  using assms
proof (induction ks)
  case Nil
  then show ?case by simp
next
  case (Cons k ks)
  from Cons.prems(2) obtain m where m: "map_of (optimized (metas s md)) k = Some m"
    using map_of_key_Some by fastforce
  show ?case
  proof (cases "map_of (optimized (metas s nd)) k")
    case None
    with Cons.prems m show ?thesis by simp
  next
    case (Some n)
    with Cons.prems m have "fileHash_changed s md nd ks = Inl e"
      by (simp split: if_splits)
    with Cons.IH Cons.prems(2) show ?thesis by auto
  qed
qed

lemma set_needsInteropMismatch:
  "set (needsInteropMismatch s md nd) =
     {dep. \<exists>d n. map_of (discovered (metas s md)) dep = Some d \<and>
                 map_of (optimized (metas s nd)) dep = Some n \<and>
                 needsInterop (infos s d) \<noteq> None \<and>
                 needsInterop (infos s n) \<noteq> needsInterop (infos s d)}"
  by (auto simp: needsInteropMismatch_def interop_mismatch_def
      split: option.splits dest: map_of_SomeD intro: rev_image_eqI)

lemma fileHash_changed_first:
  assumes "set ks \<subseteq> fst ` set (optimized (metas s md))"
  shows "fileHash_changed s md nd ks =
     (case dropWhile (fileHash_kept s md nd) ks of
        [] \<Rightarrow> Inr False
      | dep # rest \<Rightarrow>
          if map_of (optimized (metas s nd)) dep = None then Inl TypeError else Inr True)"
  using assms
proof (induction ks)
  case Nil
  then show ?case by simp
next
  case (Cons k ks)
  from Cons.prems obtain m where m: "map_of (optimized (metas s md)) k = Some m"
    using map_of_key_Some [of k "optimized (metas s md)"] by auto
  show ?case
  proof (cases "map_of (optimized (metas s nd)) k")
    case None
    with m show ?thesis by (simp add: fileHash_kept_def)
  next
    case (Some n)
    with m Cons show ?thesis by (simp add: fileHash_kept_def)
  qed
qed

lemma needsReload_decision:
  "needsReload s md nd =
     (if needsInteropMismatch s md nd \<noteq> [] \<or> hash (metas s md) \<noteq> hash (metas s nd)
      then Inr True
      else case first_unkept s md nd of
             [] \<Rightarrow> Inr False
           | dep # rest \<Rightarrow>
               if map_of (optimized (metas s nd)) dep = None then Inl TypeError else Inr True)"
  using fileHash_changed_first [of "map fst (optimized (metas s md))" s md nd]
  by (simp add: needsReload_def first_unkept_def)

lemma needsReload_Inr_iff:
  assumes "needsReload s md nd = Inr b"
  shows "b = (needsInteropMismatch s md nd \<noteq> [] \<or>
             hash (metas s md) \<noteq> hash (metas s nd) \<or>
             some_fileHash_differs s md nd)"
proof -
  let ?ks = "map fst (optimized (metas s md))"
  have sub: "set ?ks \<subseteq> fst ` set (optimized (metas s md))" by simp
  have diff: "some_fileHash_differs s md nd =
      (\<exists>dep \<in> set ?ks. \<exists>m n. map_of (optimized (metas s md)) dep = Some m \<and>
                map_of (optimized (metas s nd)) dep = Some n \<and>
                fileHash (infos s n) \<noteq> fileHash (infos s m))"
    unfolding some_fileHash_differs_def
    by (intro bex_cong refl) (auto split: option.splits)
  show ?thesis
  proof (cases "needsInteropMismatch s md nd \<noteq> [] \<or>
             hash (metas s md) \<noteq> hash (metas s nd)")
    case True
    with assms show ?thesis by (auto simp: needsReload_def split: if_splits)
  next
    case False
    with assms have "fileHash_changed s md nd ?ks = Inr b"
      by (simp add: needsReload_def)
    from fileHash_changed_Inr [OF this sub] False diff show ?thesis by simp
  qed
qed

text \<open>
  Claim C1, as amended. The rerun decides in the order of the source: a non-empty
  interop-mismatch set, or two different hashes, give \<^verbatim>\<open>needsReload = true\<close> at once;
  otherwise the ids of the old optimized map are visited in the order of its keys up
  to the first one that does not keep its file hash: none gives false, one that the
  new optimized map has gives true, one that the new optimized map lacks throws a
  TypeError and no value is computed. Whenever a value is computed, it is true
  exactly when the mismatch set is non-empty, or the hashes differ, or some id of
  the old optimized map has another file hash in the new one. The mismatch set holds
  exactly the ids that are in the old discovered map and in the new optimized map
  with a defined old \<^verbatim>\<open>needsInterop\<close> that the new one differs from.
\<close>

theorem needsReload_iff:
  "needsReload s metadata newData =
     (if needsInteropMismatch s metadata newData \<noteq> [] \<or>
         hash (metas s metadata) \<noteq> hash (metas s newData)
      then Inr True
      else case first_unkept s metadata newData of
             [] \<Rightarrow> Inr False
           | dep # rest \<Rightarrow>
               if map_of (optimized (metas s newData)) dep = None then Inl TypeError
               else Inr True) \<and>
   (\<forall>b. needsReload s metadata newData = Inr b \<longrightarrow>
        b = (needsInteropMismatch s metadata newData \<noteq> [] \<or>
             hash (metas s metadata) \<noteq> hash (metas s newData) \<or>
             some_fileHash_differs s metadata newData)) \<and>
   set (needsInteropMismatch s metadata newData) =
     {dep. \<exists>d n. map_of (discovered (metas s metadata)) dep = Some d \<and>
                 map_of (optimized (metas s newData)) dep = Some n \<and>
                 needsInterop (infos s d) \<noteq> None \<and>
                 needsInterop (infos s n) \<noteq> needsInterop (infos s d)}"
  using needsReload_decision [of s metadata newData] needsReload_Inr_iff [of s metadata newData]
    set_needsInteropMismatch [of s metadata newData]
  by blast

theorem needsReload_iff_witness:
  "needsReload (snd (alloc_metadata demo_changed demo_running)) 1 8 = Inr True \<and>
   some_fileHash_differs (snd (alloc_metadata demo_changed demo_running)) 1 8 \<and>
   needsInteropMismatch (snd (alloc_metadata demo_changed demo_running)) 1 8 = [] \<and>
   first_unkept (snd (alloc_metadata demo_changed demo_running)) 1 8 = [''vue'']"
  using needsReload_iff [of "snd (alloc_metadata demo_changed demo_running)" 1 8]
  by (simp add: alloc_metadata_def alloc_info_def demo_changed_def demo_running_def
      demo_info_def empty_state_def needsReload_def needsInteropMismatch_def
      interop_mismatch_def Let_def some_fileHash_differs_def first_unkept_def fileHash_kept_def)

text \<open>The claim as stated fails where a missing id comes first: the snapshot has
  \<open>vue\<close> and \<open>react\<close> optimized, the bundler returns the same hash, no entry for
  \<open>vue\<close> and another file hash for \<open>react\<close>. The third condition holds, yet the read
  for \<open>vue\<close> throws before \<open>react\<close> is compared: \<^verbatim>\<open>needsReload\<close> is never set, the
  rerun logs the error and ends without commit.\<close>

theorem changed_fileHash_behind_missing_id_counterexample:
  "some_fileHash_differs (snd (alloc_metadata demo_partial demo_pair)) 1 8 \<and>
   needsReload (snd (alloc_metadata demo_partial demo_pair)) 1 8 = Inl TypeError \<and>
   first_unkept (snd (alloc_metadata demo_partial demo_pair)) 1 8 = [''vue'', ''react''] \<and>
   snd (runOptimizer_bundled demo_env demo_frame (Inr demo_partial) demo_pair) = Finished None \<and>
   effects (fst (runOptimizer_bundled demo_env demo_frame (Inr demo_partial) demo_pair)) =
     [LoggerError (ErrorWhileUpdating TypeError)] \<and>
   cur_metadata (fst (runOptimizer_bundled demo_env demo_frame (Inr demo_partial) demo_pair)) = 1"
  by (simp add: alloc_metadata_def alloc_info_def demo_partial_def demo_pair_def demo_running_def
      demo_info_def empty_state_def needsReload_def needsInteropMismatch_def demo_frame_def
      interop_mismatch_def Let_def some_fileHash_differs_def first_unkept_def fileHash_kept_def
      runOptimizer_bundled_def runOptimizer_finish_def runOptimizer_catch_def emit_def
      resolveEnqueuedProcessingPromises_def)

section \<open>The store and the other variables\<close>

lemma only_store_refl: "only_store s s"
  unfolding only_store_def
  by (rule exI [of _ "infos s"], rule exI [of _ "metas s"], rule exI [of _ "next_ref s"]) simp

lemma only_store_trans: "only_store s s1 \<Longrightarrow> only_store s1 s2 \<Longrightarrow> only_store s s2"
  unfolding only_store_def by (clarsimp, intro exI, rule refl)

lemma only_store_infos: "only_store s (s\<lparr>infos := i\<rparr>)"
  unfolding only_store_def
  by (rule exI [of _ i], rule exI [of _ "metas s"], rule exI [of _ "next_ref s"]) simp

lemma only_store_metas: "only_store s (s\<lparr>metas := m\<rparr>)"
  unfolding only_store_def
  by (rule exI [of _ "infos s"], rule exI [of _ m], rule exI [of _ "next_ref s"]) simp

lemma only_store_metas_next: "only_store s (s\<lparr>metas := m, next_ref := n\<rparr>)"
  unfolding only_store_def
  by (rule exI [of _ "infos s"], rule exI [of _ m], rule exI [of _ n]) simp

lemma only_store_fields:
  assumes "only_store s s'"
  shows "fulfilled s' = fulfilled s" "timers s' = timers s" "handle s' = handle s"
    "ssrServerDepsMetadata s' = ssrServerDepsMetadata s" "cur_metadata s' = cur_metadata s"
    "newDepsDiscovered s' = newDepsDiscovered s" "newDepsToLog s' = newDepsToLog s"
    "newDepsToLogHandle s' = newDepsToLogHandle s"
    "depOptimizationProcessing s' = depOptimizationProcessing s"
    "depOptimizationProcessingQueue s' = depOptimizationProcessingQueue s"
    "enqueuedRerun s' = enqueuedRerun s" "currentlyProcessing s' = currentlyProcessing s"
    "optimizeDepsEntriesVisited s' = optimizeDepsEntriesVisited s"
    "firstRunCalled s' = firstRunCalled s" "scanProcessing s' = scanProcessing s"
    "registeredIds s' = registeredIds s" "seenIds s' = seenIds s"
    "workersSources s' = workersSources s" "waitingOn s' = waitingOn s"
    "firstRunEnsured s' = firstRunEnsured s" "effects s' = effects s"
  using assms unfolding only_store_def by auto

lemma alloc_info_only_store: "only_store s (snd (alloc_info v s))"
  unfolding only_store_def alloc_info_def
  by (rule exI [of _ "(infos s)(next_ref s := v)"], rule exI [of _ "metas s"],
      rule exI [of _ "Suc (next_ref s)"]) simp

lemma alloc_infos_only_store: "only_store s (snd (alloc_infos kvs s))"
proof (induction kvs arbitrary: s)
  case Nil
  show ?case by (simp add: only_store_refl)
next
  case (Cons kv kvs)
  obtain k v where kv: "kv = (k, v)" by (cases kv)
  have "only_store (snd (alloc_info v s)) (snd (alloc_infos kvs (snd (alloc_info v s))))"
    by (rule Cons.IH)
  with alloc_info_only_store [of s v]
  have "only_store s (snd (alloc_infos kvs (snd (alloc_info v s))))"
    by (rule only_store_trans)
  then show ?case by (simp add: kv split_def Let_def)
qed

lemma alloc_metadata_only_store: "only_store s (snd (alloc_metadata b s))"
proof -
  let ?s1 = "snd (alloc_infos (bm_optimized b) s)"
  let ?s2 = "snd (alloc_infos (bm_chunks b) ?s1)"
  let ?s3 = "snd (alloc_infos (bm_discovered b) ?s2)"
  have "only_store s ?s3"
    by (blast intro: only_store_trans alloc_infos_only_store)
  moreover have "only_store ?s3 (snd (alloc_metadata b s))"
    by (simp add: alloc_metadata_def split_def Let_def only_store_metas_next)
  ultimately show ?thesis by (rule only_store_trans)
qed

lemma addOptimizedDepInfo_only_store:
  "addOptimizedDepInfo md k r s = Inr s' \<Longrightarrow> only_store s s'"
  by (auto simp: addOptimizedDepInfo_def Let_def only_store_metas split: kind.splits if_splits)

lemma keep_discovered_only_store:
  "keep_discovered md nd ks s = Inr s' \<Longrightarrow> only_store s s'"
  "keep_discovered md nd ks s = Inl (e, s') \<Longrightarrow> only_store s s'"
proof (induction ks arbitrary: s)
  case Nil
  { case 1 then show ?case by (simp add: only_store_refl) }
  { case 2 then show ?case by simp }
next
  case (Cons k ks)
  { case 1 then show ?case
      by (auto simp: only_store_refl split: option.splits sum.splits
          dest!: addOptimizedDepInfo_only_store Cons.IH(1) intro: only_store_trans) }
  { case 2 then show ?case
      by (auto simp: only_store_refl split: option.splits sum.splits
          dest!: addOptimizedDepInfo_only_store Cons.IH(2) intro: only_store_trans) }
qed

lemma set_browserHash_only_store: "only_store s (set_browserHash r h s)"
  by (simp add: set_browserHash_def only_store_infos)

lemma keep_chunks_only_store: "only_store s (keep_chunks_browserHash md nd ks s)"
proof (induction ks arbitrary: s)
  case Nil
  show ?case by (simp add: only_store_refl)
next
  case (Cons k ks)
  show ?case
    by (auto split: option.splits intro: Cons.IH only_store_trans [OF set_browserHash_only_store])
qed

lemma keep_optimized_only_store:
  "keep_optimized_browserHash md nd ks s = Inr s' \<Longrightarrow> only_store s s'"
  "keep_optimized_browserHash md nd ks s = Inl (e, s') \<Longrightarrow> only_store s s'"
proof (induction ks arbitrary: s)
  case Nil
  { case 1 then show ?case by (simp add: only_store_refl) }
  { case 2 then show ?case by simp }
next
  case (Cons k ks)
  { case 1 then show ?case
      by (auto simp: only_store_refl split: option.splits
          dest!: Cons.IH(1) intro: only_store_trans [OF set_browserHash_only_store]) }
  { case 2 then show ?case
      by (auto simp: only_store_refl split: option.splits
          dest!: Cons.IH(2) intro: only_store_trans [OF set_browserHash_only_store]) }
qed

lemma keep_browserHash_only_store:
  "keep_browserHash fr s = Inr s' \<Longrightarrow> only_store s s'"
  "keep_browserHash fr s = Inl (e, s') \<Longrightarrow> only_store s s'"
  by (auto simp: keep_browserHash_def Let_def only_store_refl split: if_splits
      dest!: keep_optimized_only_store
      intro: only_store_trans [OF only_store_metas] only_store_trans [OF keep_chunks_only_store])

lemma commit_to_discovered_only_store: "only_store s (commit_to_discovered md nd ks s)"
proof (induction ks arbitrary: s)
  case Nil
  show ?case by (simp add: only_store_refl)
next
  case (Cons k ks)
  show ?case
    by (auto split: option.splits intro: Cons.IH only_store_trans [OF only_store_infos])
qed

lemma alloc_infos_facts:
  "alloc_infos kvs s = (m, s') \<Longrightarrow>
     metas s' = metas s \<and> next_ref s' = next_ref s + length kvs \<and>
     (\<forall>r < next_ref s. infos s' r = infos s r) \<and>
     map fst m = map fst kvs \<and>
     map snd m = [next_ref s ..< next_ref s + length kvs] \<and>
     (\<forall>j < length kvs. infos s' (next_ref s + j) = snd (kvs ! j))"
proof (induction kvs arbitrary: s m s')
  case Nil
  then show ?case by simp
next
  case (Cons kv kvs)
  obtain k v where kv: "kv = (k, v)" by (cases kv)
  define s1 where "s1 = snd (alloc_info v s)"
  obtain m2 s2 where a2: "alloc_infos kvs s1 = (m2, s2)" by (cases "alloc_infos kvs s1")
  have s1: "metas s1 = metas s" "next_ref s1 = Suc (next_ref s)"
    "infos s1 = (infos s)(next_ref s := v)" "fst (alloc_info v s) = next_ref s"
    by (simp_all add: s1_def alloc_info_def)
  from Cons.prems kv a2 s1(4) have res: "m = (k, next_ref s) # m2" "s' = s2"
    by (auto simp: split_def Let_def s1_def)
  note ih = Cons.IH [OF a2]
  have "\<forall>j < length (kv # kvs). infos s' (next_ref s + j) = snd ((kv # kvs) ! j)"
  proof (intro allI impI)
    fix j assume j: "j < length (kv # kvs)"
    show "infos s' (next_ref s + j) = snd ((kv # kvs) ! j)"
    proof (cases j)
      case 0
      with ih res s1 kv show ?thesis by simp
    next
      case (Suc i)
      with j ih res s1 show ?thesis by simp
    qed
  qed
  with ih res s1 kv show ?case by (simp add: upt_conv_Cons del: upt_Suc)
qed

lemma alloc_metadata_facts:
  assumes "alloc_metadata b s = (nd, s1)"
  shows "next_ref s \<le> nd" "nd < next_ref s1"
    "\<forall>r < next_ref s. infos s1 r = infos s r"
    "\<forall>r. r \<noteq> nd \<longrightarrow> metas s1 r = metas s r"
    "hash (metas s1 nd) = bm_hash b" "md_browserHash (metas s1 nd) = bm_browserHash b"
    "map fst (optimized (metas s1 nd)) = map fst (bm_optimized b)"
    "map snd (optimized (metas s1 nd)) = [next_ref s ..< next_ref s + length (bm_optimized b)]"
    "\<forall>j < length (bm_optimized b). infos s1 (next_ref s + j) = snd (bm_optimized b ! j)"
    "map fst (chunks (metas s1 nd)) = map fst (bm_chunks b)"
    "set (map snd (chunks (metas s1 nd))) \<subseteq> {next_ref s ..< nd}"
    "set (map snd (discovered (metas s1 nd))) \<subseteq> {next_ref s ..< nd}"
    "map fst (discovered (metas s1 nd)) = map fst (bm_discovered b)"
    "only_store s s1"
proof -
  obtain mo so where o: "alloc_infos (bm_optimized b) s = (mo, so)" by (cases "alloc_infos (bm_optimized b) s")
  obtain mc sc where c: "alloc_infos (bm_chunks b) so = (mc, sc)" by (cases "alloc_infos (bm_chunks b) so")
  obtain md sd where d: "alloc_infos (bm_discovered b) sc = (md, sd)" by (cases "alloc_infos (bm_discovered b) sc")
  note fo = alloc_infos_facts [OF o] and fc = alloc_infos_facts [OF c] and fd = alloc_infos_facts [OF d]
  from assms o c d have nd: "nd = next_ref sd"
    and s1: "s1 = sd\<lparr>metas := (metas sd)(next_ref sd :=
                \<lparr>hash = bm_hash b, md_browserHash = bm_browserHash b,
                 optimized = mo, chunks = mc, discovered = md\<rparr>),
             next_ref := Suc (next_ref sd)\<rparr>"
    by (auto simp: alloc_metadata_def Let_def)
  show "next_ref s \<le> nd" "nd < next_ref s1" using fo fc fd by (simp_all add: nd s1)
  show "\<forall>r < next_ref s. infos s1 r = infos s r" using fo fc fd by (simp add: s1)
  show "\<forall>r. r \<noteq> nd \<longrightarrow> metas s1 r = metas s r" using fo fc fd by (simp add: s1 nd)
  show "hash (metas s1 nd) = bm_hash b" "md_browserHash (metas s1 nd) = bm_browserHash b"
    by (simp_all add: s1 nd)
  show "map fst (optimized (metas s1 nd)) = map fst (bm_optimized b)"
    "map fst (chunks (metas s1 nd)) = map fst (bm_chunks b)"
    "map fst (discovered (metas s1 nd)) = map fst (bm_discovered b)"
    using fo fc fd by (simp_all add: s1 nd)
  show "map snd (optimized (metas s1 nd)) = [next_ref s ..< next_ref s + length (bm_optimized b)]"
    using fo by (simp add: s1 nd)
  show "\<forall>j < length (bm_optimized b). infos s1 (next_ref s + j) = snd (bm_optimized b ! j)"
    using fo fc fd by (simp add: s1)
  show "set (map snd (chunks (metas s1 nd))) \<subseteq> {next_ref s ..< nd}"
    using fo fc fd by (simp add: s1 nd) 
  show "set (map snd (discovered (metas s1 nd))) \<subseteq> {next_ref s ..< nd}"
    using fo fc fd by (simp add: s1 nd) 
  from assms alloc_metadata_only_store [of s b] show "only_store s s1" by simp
qed

section \<open>The start and the handler of a rerun\<close>

lemma clear_handle_eq:
  "clear_handle h s =
     s\<lparr>timers := (case h of None \<Rightarrow> timers s
                  | Some t \<Rightarrow> filter (\<lambda>x. fst x \<noteq> t) (timers s))\<rparr>"
  by (simp add: clear_handle_def clearTimeout_def split: option.splits)

lemma runOptimizer_start_empty:
  "discovered (metas s (cur_metadata s)) = [] \<Longrightarrow>
   runOptimizer_start env s =
     ((clear_handle (handle s) s)\<lparr>firstRunCalled := True, enqueuedRerun := False,
        currentlyProcessing := False\<rparr>, None)"
  by (cases "handle s")
     (simp_all add: runOptimizer_start_def Let_def clear_handle_def clearTimeout_def)

lemma build_newDeps_cong:
  assumes "infos s' = infos s" and "metas s' = metas s"
  shows "build_newDeps s' md = build_newDeps s md"
proof -
  have "clone_optimized s' md = clone_optimized s md"
    by (intro ext) (simp add: clone_optimized_def assms split: option.splits)
  moreover have "clone_discovered s' md = clone_discovered s md"
    by (intro ext) (simp add: clone_discovered_def assms split: option.splits)
  ultimately show ?thesis by (simp add: build_newDeps_def assms)
qed

lemma runOptimizer_start_store:
  "runOptimizer_start env s = (s', fr) \<Longrightarrow>
     infos s' = infos s \<and> metas s' = metas s \<and> fulfilled s' = fulfilled s \<and>
     cur_metadata s' = cur_metadata s \<and>
     ssrServerDepsMetadata s' = ssrServerDepsMetadata s \<and>
     next_ref s \<le> next_ref s' \<and>
     (fr = None \<longrightarrow>
        depOptimizationProcessingQueue s' = depOptimizationProcessingQueue s \<and>
        effects s' = effects s) \<and>
     (\<forall>f. fr = Some f \<longrightarrow> fr_metadata f = cur_metadata s \<and>
        depOptimizationProcessingQueue s' =
          depOptimizationProcessingQueue s @ [depOptimizationProcessing s] \<and>
        effects s' = effects s @ [RunOptimizeDeps (build_newDeps s (cur_metadata s))])"
  by (cases "handle s")
     (auto simp add: runOptimizer_start_def Let_def clear_handle_def clearTimeout_def emit_def
        newDepOptimizationProcessing_def
      split: if_splits prod.splits intro!: build_newDeps_cong)

lemma runOptimizer_catch_eq:
  "runOptimizer_catch md e s =
     s\<lparr>effects := effects s @ [LoggerError (ErrorWhileUpdating e)],
       fulfilled := fulfilled s \<union> set (depOptimizationProcessingQueue s),
       depOptimizationProcessingQueue := [],
       metas := (metas s)(md := (metas s md)\<lparr>discovered := []\<rparr>)\<rparr>"
  by (simp add: runOptimizer_catch_def Let_def emit_def resolveEnqueuedProcessingPromises_def)

section \<open>What every operation keeps\<close>

lemma keeps_refl: "keeps s s"
  by (simp add: keeps_def)

lemma keeps_trans: "keeps s s1 \<Longrightarrow> keeps s1 s2 \<Longrightarrow> keeps s s2"
  by (auto simp: keeps_def)

lemma only_store_keeps: "only_store s s' \<Longrightarrow> keeps s s'"
  by (simp add: keeps_def only_store_fields)

lemma keeps_same:
  "ssrServerDepsMetadata s' = ssrServerDepsMetadata s \<Longrightarrow> fulfilled s' = fulfilled s \<Longrightarrow>
   depOptimizationProcessingQueue s' = depOptimizationProcessingQueue s \<Longrightarrow> keeps s s'"
  by (simp add: keeps_def)

lemma debouncedProcessing_keeps: "keeps s (debouncedProcessing t s)"
  by (rule keeps_same)
     (simp_all add: debouncedProcessing_def Let_def clear_handle_eq setTimeout_def split_def)

lemma runOptimizer_start_keeps: "keeps s (fst (runOptimizer_start env s))"
proof -
  obtain s' fr where e: "runOptimizer_start env s = (s', fr)"
    by (cases "runOptimizer_start env s")
  from runOptimizer_start_store [OF e] show ?thesis
    by (cases fr) (auto simp: keeps_def e)
qed

lemma runOptimizer_finish_keeps: "keeps s (fst (runOptimizer_finish env s))"
proof -
  have "keeps s (s\<lparr>currentlyProcessing := False\<rparr>)" by (simp add: keeps_def)
  then show ?thesis
    by (auto simp: runOptimizer_finish_def rerun_def Let_def
        intro: keeps_trans runOptimizer_start_keeps)
qed

lemma runOptimizer_catch_keeps: "keeps s (runOptimizer_catch md e s)"
  by (auto simp: keeps_def runOptimizer_catch_eq)

lemma emit_keeps: "keeps s (emit e s)"
  by (simp add: keeps_def emit_def)

lemma catch_finish_keeps:
  "keeps s (fst (runOptimizer_finish env (runOptimizer_catch md e s)))"
  by (rule keeps_trans [OF runOptimizer_catch_keeps runOptimizer_finish_keeps])

lemma emit_finish_keeps:
  "keeps s (fst (runOptimizer_finish env (emit e s)))"
  by (rule keeps_trans [OF emit_keeps runOptimizer_finish_keeps])

lemma runOptimizer_bundled_keeps: "keeps s (fst (runOptimizer_bundled env fr res s))"
proof (cases res)
  case (Inl e)
  then show ?thesis
    by (simp add: runOptimizer_bundled_def split_def Let_def catch_finish_keeps)
next
  case (Inr b)
  let ?s1 = "snd (alloc_metadata b s)"
  let ?nd = "fst (alloc_metadata b s)"
  have a: "keeps s ?s1"
    by (rule only_store_keeps [OF alloc_metadata_only_store])
  show ?thesis
  proof (cases "needsReload ?s1 (fr_metadata fr) ?nd")
    case (Inl e)
    with Inr have "fst (runOptimizer_bundled env fr res s) =
        fst (runOptimizer_finish env (runOptimizer_catch (fr_metadata fr) e ?s1))"
      by (simp add: runOptimizer_bundled_def split_def Let_def)
    with keeps_trans [OF a catch_finish_keeps] show ?thesis by simp
  next
    case reload: (Inr reload)
    show ?thesis
    proof (cases "reload \<and> newDepsDiscovered ?s1")
      case True
      with Inr reload have "fst (runOptimizer_bundled env fr res s) =
          fst (runOptimizer_finish env (emit (BundlerCancel ?nd) ?s1))"
        by (simp add: runOptimizer_bundled_def split_def Let_def)
      with keeps_trans [OF a emit_finish_keeps] show ?thesis by simp
    next
      case False
      with Inr reload have "fst (runOptimizer_bundled env fr res s) =
          emit (BundlerCommit ?nd) ?s1"
        by (auto simp add: runOptimizer_bundled_def split_def Let_def)
      with keeps_trans [OF a emit_keeps] show ?thesis by simp
    qed
  qed
qed

lemma commitProcessing_Inl: "commitProcessing fr s = Inl (e, s') \<Longrightarrow> only_store s s'"
  by (auto simp: commitProcessing_def Let_def split: sum.splits
      dest!: keep_discovered_only_store keep_browserHash_only_store intro: only_store_trans)

lemma commitProcessing_Inr:
  assumes "commitProcessing fr s = Inr s'"
  shows "\<exists>s3 l. only_store s s3 \<and>
           s' = s3\<lparr>newDepsToLog := l, cur_metadata := fr_newData fr,
                  fulfilled := fulfilled s \<union> set (depOptimizationProcessingQueue s),
                  depOptimizationProcessingQueue := []\<rparr>"
proof -
  from assms obtain s1 s2 where
    1: "keep_discovered (fr_metadata fr) (fr_newData fr)
          (map fst (discovered (metas s (fr_metadata fr)))) s = Inr s1"
    and 2: "keep_browserHash fr s1 = Inr s2"
    by (auto simp: commitProcessing_def Let_def split: sum.splits)
  let ?s3 = "commit_to_discovered (fr_metadata fr) (fr_newData fr)
               (map fst (optimized (metas s2 (fr_newData fr)))) s2"
  have os: "only_store s ?s3"
    using keep_discovered_only_store(1) [OF 1] keep_browserHash_only_store(1) [OF 2]
      commit_to_discovered_only_store
    by (blast intro: only_store_trans)
  let ?l = "if fr_isRerun fr
            then newDepsToLog ?s3 @
                 filter (\<lambda>dep. map_of (optimized (metas ?s3 (fr_metadata fr))) dep = None)
                   (map fst (optimized (metas ?s3 (fr_newData fr))))
            else newDepsToLog ?s3"
  have f: "fulfilled ?s3 = fulfilled s"
    "depOptimizationProcessingQueue ?s3 = depOptimizationProcessingQueue s"
    using os by (simp_all add: only_store_fields)
  from assms 1 2 have "s' = ?s3\<lparr>newDepsToLog := ?l, cur_metadata := fr_newData fr,
                  fulfilled := fulfilled ?s3 \<union> set (depOptimizationProcessingQueue ?s3),
                  depOptimizationProcessingQueue := []\<rparr>"
    by (cases "fr_isRerun fr")
       (simp_all add: commitProcessing_def Let_def resolveEnqueuedProcessingPromises_def)
  then have "s' = ?s3\<lparr>newDepsToLog := ?l, cur_metadata := fr_newData fr,
                  fulfilled := fulfilled s \<union> set (depOptimizationProcessingQueue s),
                  depOptimizationProcessingQueue := []\<rparr>"
    by (simp only: f)
  with os show ?thesis by blast
qed

lemma commitProcessing_keeps: "commitProcessing fr s = Inr s' \<Longrightarrow> keeps s s'"
  by (drule commitProcessing_Inr) (auto simp: keeps_def only_store_fields)

lemma after_commit_keeps: "keeps s (after_commit env fr s)"
  by (rule keeps_same)
     (simp_all add: after_commit_def Let_def clear_handle_eq setTimeout_def split_def
        logNewlyDiscoveredDeps_def emit_def fullReload_def)

lemma runOptimizer_committed_keeps: "keeps s (fst (runOptimizer_committed env cf res s))"
proof (cases res)
  case (Inl e)
  then show ?thesis by (simp add: runOptimizer_committed_def catch_finish_keeps)
next
  case (Inr u)
  show ?thesis
  proof (cases "commitProcessing cf s")
    case (Inl x)
    obtain e s1 where x: "x = (e, s1)" by (cases x)
    from Inl x have "keeps s s1"
      by (auto dest: commitProcessing_Inl intro: only_store_keeps)
    from keeps_trans [OF this catch_finish_keeps] Inr Inl x show ?thesis
      by (simp add: runOptimizer_committed_def)
  next
    case c: (Inr s1)
    then have "keeps s s1" by (rule commitProcessing_keeps)
    from keeps_trans [OF this keeps_trans [OF after_commit_keeps runOptimizer_finish_keeps]]
      Inr c show ?thesis
      by (simp add: runOptimizer_committed_def)
  qed
qed

lemma registerMissingImport_keeps:
  assumes "registerMissingImport env i resolved ssr s = Inr (r, s')"
  shows "keeps s s'"
  using assms
  by (auto simp: registerMissingImport_def Let_def emit_def alloc_info_def
      addOptimizedDepInfo_def split_def
      split: option.splits if_splits sum.splits
      intro!: keeps_same keeps_trans [OF _ debouncedProcessing_keeps])

lemma run_keeps: "keeps s (run s)"
  by (simp add: run_def debouncedProcessing_keeps)

lemma getDepsOptimizer_run_keeps: "keeps s (getDepsOptimizer_run env s)"
  by (auto simp: getDepsOptimizer_run_def run_keeps emit_keeps keeps_refl split: option.splits)

lemma runOptimizerWhenIdle_keeps: "keeps s (runOptimizerWhenIdle s)"
  by (rule keeps_same) (simp_all add: runOptimizerWhenIdle_def Let_def emit_def)

lemma afterLoad_keeps: "keeps s (afterLoad env i s)"
proof -
  have "keeps s (s\<lparr>waitingOn := None\<rparr>)" by (simp add: keeps_def)
  then show ?thesis
    by (auto simp: afterLoad_def Let_def
        intro: keeps_trans [OF _ runOptimizerWhenIdle_keeps]
               keeps_trans [OF _ getDepsOptimizer_run_keeps])
qed

lemma registerWorkersSource_keeps: "keeps s (registerWorkersSource i s)"
proof -
  have "keeps s (s\<lparr>workersSources := w, registeredIds := l, waitingOn := None\<rparr>)" for w l
    by (simp add: keeps_def)
  moreover have "keeps s (s\<lparr>workersSources := w, registeredIds := l\<rparr>)" for w l
    by (simp add: keeps_def)
  ultimately show ?thesis
    by (auto simp: registerWorkersSource_def Let_def
        intro: keeps_trans [OF _ runOptimizerWhenIdle_keeps])
qed

lemma delayDepsOptimizerUntil_keeps: "keeps s (delayDepsOptimizerUntil env i d s)"
proof -
  have a: "keeps s (s\<lparr>seenIds := w, registeredIds := l\<rparr>)" for w l
    by (simp add: keeps_def)
  have b: "keeps t (emit e (t\<lparr>optimizeDepsEntriesVisited := True\<rparr>))" for t e
    by (simp add: keeps_def emit_def)
  show ?thesis
    by (auto simp: delayDepsOptimizerUntil_def Let_def keeps_refl
        intro: b keeps_trans [OF a runOptimizerWhenIdle_keeps]
          keeps_trans [OF keeps_trans [OF a runOptimizerWhenIdle_keeps] b])
qed

lemma resetRegisteredIds_keeps: "keeps s (resetRegisteredIds s)"
  by (simp add: keeps_def resetRegisteredIds_def)

lemma ensureFirstRun_keeps: "keeps s (ensureFirstRun s)"
  by (simp add: keeps_def ensureFirstRun_def Let_def setTimeout_def)

lemma done_fulfilled_keeps: "keeps s (done_fulfilled i s)"
  by (simp add: keeps_def done_fulfilled_def setTimeout_def)

lemma add_discovered_Cons:
  "add_discovered md (d # ds) s =
     (case addOptimizedDepInfo md Discovered
             (fst (alloc_info (d\<lparr>processing := Some (depOptimizationProcessing s)\<rparr>) s))
             (snd (alloc_info (d\<lparr>processing := Some (depOptimizationProcessing s)\<rparr>) s)) of
        Inl e \<Rightarrow> Inl (e, snd (alloc_info (d\<lparr>processing := Some (depOptimizationProcessing s)\<rparr>) s))
      | Inr s2 \<Rightarrow> add_discovered md ds s2)"
  by (simp add: split_def Let_def)

lemma add_discovered_only_store_Inr:
  "add_discovered md ds s = Inr s' \<Longrightarrow> only_store s s'"
proof (induction ds arbitrary: s)
  case Nil
  then show ?case by (simp add: only_store_refl)
next
  case (Cons d ds)
  let ?a = "alloc_info (d\<lparr>processing := Some (depOptimizationProcessing s)\<rparr>) s"
  have a: "only_store s (snd ?a)" by (rule alloc_info_only_store)
  show ?case
  proof (cases "addOptimizedDepInfo md Discovered (fst ?a) (snd ?a)")
    case (Inl e')
    with Cons.prems show ?thesis by (simp only: add_discovered_Cons sum.case) simp
  next
    case (Inr s2)
    with Cons.prems have "add_discovered md ds s2 = Inr s'"
      by (simp only: add_discovered_Cons sum.case)
    from a addOptimizedDepInfo_only_store [OF Inr] Cons.IH [OF this] show ?thesis
      by (blast intro: only_store_trans)
  qed
qed

lemma add_discovered_only_store_Inl:
  "add_discovered md ds s = Inl (e, s') \<Longrightarrow> only_store s s'"
proof (induction ds arbitrary: s)
  case Nil
  then show ?case by simp
next
  case (Cons d ds)
  let ?a = "alloc_info (d\<lparr>processing := Some (depOptimizationProcessing s)\<rparr>) s"
  have a: "only_store s (snd ?a)" by (rule alloc_info_only_store)
  show ?case
  proof (cases "addOptimizedDepInfo md Discovered (fst ?a) (snd ?a)")
    case (Inl e')
    with Cons.prems have "s' = snd ?a" by (simp only: add_discovered_Cons sum.case) simp
    with a show ?thesis by simp
  next
    case (Inr s2)
    with Cons.prems have "add_discovered md ds s2 = Inl (e, s')"
      by (simp only: add_discovered_Cons sum.case)
    from a addOptimizedDepInfo_only_store [OF Inr] Cons.IH [OF this] show ?thesis
      by (blast intro: only_store_trans)
  qed
qed

lemmas add_discovered_only_store = add_discovered_only_store_Inr add_discovered_only_store_Inl

lemma scan_catch_keeps: "keeps s (scan_catch sp e s)"
  by (auto simp: keeps_def scan_catch_def Let_def emit_def)

lemma scan_returned_keeps: "keeps s (fst (scan_returned env md sp found s))"
proof (cases found)
  case (Inl e)
  then show ?thesis by (simp add: scan_returned_def scan_catch_keeps)
next
  case (Inr ds)
  show ?thesis
  proof (cases "add_discovered md ds s")
    case (Inl x)
    obtain e s1 where x: "x = (e, s1)" by (cases x)
    from Inl x have "keeps s s1"
      by (auto dest: add_discovered_only_store intro: only_store_keeps)
    from keeps_trans [OF this scan_catch_keeps] Inr Inl x show ?thesis
      by (simp add: scan_returned_def)
  next
    case a: (Inr s1)
    then have k1: "keeps s s1"
      by (auto dest: add_discovered_only_store intro: only_store_keeps)
    have k2: "keeps s1 (s1\<lparr>fulfilled := insert sp (fulfilled s1), scanProcessing := None\<rparr>)"
      by (auto simp: keeps_def)
    from keeps_trans [OF k1 keeps_trans [OF k2 runOptimizer_start_keeps]] Inr a
    show ?thesis
      by (simp add: scan_returned_def)
  qed
qed

lemma clearTimeout_keeps: "keeps s (clearTimeout h s)"
  by (simp add: keeps_def clearTimeout_def)

lemma rerun_timer_keeps: "keeps s (fst (rerun_timer env s))"
proof -
  have "keeps s (s\<lparr>handle := None, enqueuedRerun := True\<rparr>)" by (simp add: keeps_def)
  then show ?thesis
    by (auto simp: rerun_timer_def rerun_def Let_def
        intro: keeps_trans [OF _ runOptimizer_start_keeps])
qed

lemma logDeps_timer_keeps: "keeps s (logDeps_timer s)"
  by (simp add: keeps_def logDeps_timer_def logNewlyDiscoveredDeps_def emit_def)

lemma ensureFirstRun_timer_keeps: "keeps s (ensureFirstRun_timer env s)"
  by (simp add: ensureFirstRun_timer_def getDepsOptimizer_run_keeps keeps_refl)

lemma fire_timer_keeps: "keeps s (fst (fire_timer env h s))"
proof (cases "find (\<lambda>t. fst t = h) (timers s)")
  case None
  then show ?thesis by (simp add: fire_timer_def keeps_refl)
next
  case (Some x)
  obtain t ms cb where x: "x = (t, ms, cb)" by (cases x)
  note c = clearTimeout_keeps [of s h]
  show ?thesis
  proof (cases cb)
    case RerunTimer
    with Some x keeps_trans [OF c rerun_timer_keeps] show ?thesis
      by (simp add: fire_timer_def Let_def)
  next
    case LogDepsTimer
    with Some x keeps_trans [OF c logDeps_timer_keeps] show ?thesis
      by (simp add: fire_timer_def Let_def)
  next
    case (AfterLoad i)
    with Some x keeps_trans [OF c afterLoad_keeps] show ?thesis
      by (simp add: fire_timer_def Let_def)
  next
    case EnsureFirstRunTimer
    with Some x keeps_trans [OF c ensureFirstRun_timer_keeps] show ?thesis
      by (simp add: fire_timer_def Let_def)
  next
    case ScanTimer
    with Some x keeps_trans [OF c emit_keeps] show ?thesis
      by (simp add: fire_timer_def Let_def scan_timer_def)
  qed
qed

lemma step_keeps: "step env s s' \<Longrightarrow> keeps s s'"
proof (induction rule: step.induct)
  case (step_register i resolved ssr s r s')
  then show ?case by (rule registerMissingImport_keeps)
qed (simp_all add: run_keeps registerWorkersSource_keeps delayDepsOptimizerUntil_keeps
      resetRegisteredIds_keeps ensureFirstRun_keeps fire_timer_keeps done_fulfilled_keeps
      done_rejected_def afterLoad_keeps scan_returned_keeps runOptimizer_bundled_keeps
      runOptimizer_committed_keeps)

lemma steps_keeps: "steps env s s' \<Longrightarrow> keeps s s'"
  unfolding steps_def
  by (induction rule: rtranclp_induct) (auto intro: keeps_refl keeps_trans step_keeps)

section \<open>A failing bundler\<close>

text \<open>
  Claim C4. When the bundler invoked by a rerun throws, and the rerun works on the
  current snapshot, then at the end of the rerun every promise of the resolve-queue
  is fulfilled and the queue is empty, the discovered map of the snapshot is empty,
  and \<^verbatim>\<open>_metadata\<close> is the reference it was: the snapshot is the same object, changed
  only in its discovered map, and no info is touched. No further rerun starts.
\<close>

theorem bundler_failure:
  assumes "fr_metadata fr = cur_metadata s"
    and "runOptimizer_bundled env fr (Inl e) s = (s', out)"
  shows "set (depOptimizationProcessingQueue s) \<subseteq> fulfilled s' \<and>
         depOptimizationProcessingQueue s' = [] \<and>
         discovered (metas s' (cur_metadata s')) = [] \<and>
         cur_metadata s' = cur_metadata s \<and>
         metas s' = (metas s)(cur_metadata s := (metas s (cur_metadata s))\<lparr>discovered := []\<rparr>) \<and>
         infos s' = infos s \<and>
         out = Finished None"
  using assms
  by (auto simp add: runOptimizer_bundled_def runOptimizer_finish_def rerun_def Let_def
      runOptimizer_catch_eq runOptimizer_start_empty clear_handle_eq
      split: prod.splits if_splits)

theorem bundler_failure_witness:
  "fr_metadata demo_frame = cur_metadata demo_running \<and>
   2 \<in> fulfilled (fst (runOptimizer_bundled demo_env demo_frame
                          (Inl (Rejected ''esbuild'')) demo_running)) \<and>
   depOptimizationProcessingQueue
     (fst (runOptimizer_bundled demo_env demo_frame
             (Inl (Rejected ''esbuild'')) demo_running)) = [] \<and>
   cur_metadata (fst (runOptimizer_bundled demo_env demo_frame
                        (Inl (Rejected ''esbuild'')) demo_running)) = 1"
proof -
  have h: "fr_metadata demo_frame = cur_metadata demo_running"
    by (simp add: demo_frame_def demo_running_def empty_state_def)
  have q: "depOptimizationProcessingQueue demo_running = [2]"
    by (simp add: demo_running_def empty_state_def)
  have c: "cur_metadata demo_running = 1"
    by (simp add: demo_running_def empty_state_def)
  from bundler_failure [OF h surjective_pairing, of demo_env "Rejected ''esbuild''"] h q c
  show ?thesis by simp
qed

section \<open>The metadata query for SSR\<close>

lemma initDepsOptimizer_ssr_slot:
  assumes "\<not> (\<not> isBuild env \<and> config_ssr env)"
    and "initDepsOptimizer env cachedMetadata fresh ssrDeps initial = Inr s0"
  shows "ssrServerDepsMetadata s0 = None"
proof -
  define b where "b = (case cachedMetadata of None \<Rightarrow> fresh | Some c \<Rightarrow> c)"
  define m where "m = fst (alloc_metadata b empty_state)"
  define s1 where "s1 = snd (alloc_metadata b empty_state)"
  define s5 where "s5 = (snd (newDepOptimizationProcessing (s1\<lparr>cur_metadata := m\<rparr>)))
      \<lparr>depOptimizationProcessing := fst (newDepOptimizationProcessing (s1\<lparr>cur_metadata := m\<rparr>)),
       optimizeDepsEntriesVisited := (cachedMetadata \<noteq> None),
       firstRunCalled := (cachedMetadata \<noteq> None)\<rparr>"
  have "ssrServerDepsMetadata s1 = None"
    unfolding s1_def
    by (simp add: only_store_fields [OF alloc_metadata_only_store] empty_state_def)
  then have 5: "ssrServerDepsMetadata s5 = None"
    by (simp add: s5_def newDepOptimizationProcessing_def)
  have c: "(\<not> isBuild env \<and> config_ssr env) = False"
    using assms(1) by simp
  have unf: "initDepsOptimizer env cachedMetadata fresh ssrDeps initial =
      (if cachedMetadata = None
       then (if \<not> scan env then add_discovered m initial s5
             else (let s6 = s5\<lparr>currentlyProcessing := True\<rparr>;
                       (sp, s7) = newDepOptimizationProcessing s6;
                       s8 = s7\<lparr>scanProcessing := Some sp\<rparr>
                   in Inr (snd (setTimeout ScanTimer 0 s8))))
       else Inr s5)"
    unfolding s5_def s1_def m_def b_def initDepsOptimizer_def
    by (simp only: c if_False split_def Let_def)
  show ?thesis
  proof (cases "cachedMetadata = None")
    case False
    with assms(2) unf 5 show ?thesis by simp
  next
    case True
    show ?thesis
    proof (cases "scan env")
      case False
      with True assms(2) unf have "add_discovered m initial s5 = Inr s0" by simp
      from only_store_fields(4) [OF add_discovered_only_store_Inr [OF this]] 5
      show ?thesis by simp
    next
      case s: True
      with True assms(2) unf 5 show ?thesis
        by (auto simp: Let_def split_def newDepOptimizationProcessing_def setTimeout_def)
    qed
  qed
qed

text \<open>
  Claim C10. In dev mode (the command is not build), when the config does not enable
  SSR, \<^verbatim>\<open>metadata({ssr: true})\<close> returns undefined, at start-up and after any
  sequence of steps of the optimizer: the slot of the SSR metadata is assigned only
  by \<^verbatim>\<open>initDepsOptimizer\<close>, and only when \<^verbatim>\<open>config.ssr\<close> is set.
\<close>

theorem ssr_metadata_undefined:
  assumes "\<not> isBuild env" and "\<not> config_ssr env"
    and "initDepsOptimizer env cachedMetadata fresh ssrDeps initial = Inr s0"
    and "steps env s0 s"
  shows "depsOptimizer_metadata env s True = None"
proof -
  from assms(2,3) have "ssrServerDepsMetadata s0 = None"
    by (intro initDepsOptimizer_ssr_slot) auto
  moreover from steps_keeps [OF assms(4)] have "ssrServerDepsMetadata s = ssrServerDepsMetadata s0"
    by (simp add: keeps_def)
  ultimately show ?thesis
    using assms(1) by (simp add: depsOptimizer_metadata_def)
qed

theorem ssr_metadata_undefined_witness:
  "\<not> isBuild demo_env \<and> \<not> config_ssr demo_env \<and>
   depsOptimizer_metadata demo_env
     (run (projr (initDepsOptimizer demo_env (Some demo_unchanged) demo_unchanged
                    demo_unchanged []))) True = None"
proof -
  let ?s0 = "projr (initDepsOptimizer demo_env (Some demo_unchanged) demo_unchanged
                      demo_unchanged [])"
  have i: "initDepsOptimizer demo_env (Some demo_unchanged) demo_unchanged demo_unchanged [] =
      Inr ?s0"
    by (simp add: initDepsOptimizer_def split_def Let_def)
  have st: "steps demo_env ?s0 (run ?s0)"
    unfolding steps_def by (rule r_into_rtranclp) (rule step_run)
  have e: "\<not> isBuild demo_env" "\<not> config_ssr demo_env"
    by (simp_all add: demo_env_def)
  from ssr_metadata_undefined [OF e i st] e show ?thesis by blast
qed

section \<open>The end of a rerun\<close>

lemma runOptimizer_finish_store:
  assumes "runOptimizer_finish env s = (s', fr)"
  shows "infos s' = infos s \<and> metas s' = metas s \<and> fulfilled s' = fulfilled s \<and>
     cur_metadata s' = cur_metadata s \<and>
     (fr = None \<longrightarrow>
        depOptimizationProcessingQueue s' = depOptimizationProcessingQueue s \<and>
        effects s' = effects s) \<and>
     (\<forall>f. fr = Some f \<longrightarrow> fr_metadata f = cur_metadata s \<and>
        depOptimizationProcessingQueue s' =
          depOptimizationProcessingQueue s @ [depOptimizationProcessing s] \<and>
        effects s' = effects s @ [RunOptimizeDeps (build_newDeps s (cur_metadata s))])"
proof (cases "enqueuedRerun s")
  case False
  with assms show ?thesis by (auto simp: runOptimizer_finish_def Let_def)
next
  case True
  let ?t = "s\<lparr>currentlyProcessing := False\<rparr>"
  from True assms have "runOptimizer_start env ?t = (s', fr)"
    by (simp add: runOptimizer_finish_def Let_def rerun_def)
  from runOptimizer_start_store [OF this]
    build_newDeps_cong [of ?t s "cur_metadata s"]
  show ?thesis by simp
qed

section \<open>Registering a missing import twice\<close>

lemma registration_state:
  "(if \<not> isBuild env \<and> ssr = Some True
    then emit (LoggerError (SsrMissingDependency i))
           (if scanProcessing s \<noteq> None then emit (LoggerError RegisteringBeforeScanOver) s else s)
    else (if scanProcessing s \<noteq> None then emit (LoggerError RegisteringBeforeScanOver) s else s)) =
   s\<lparr>effects := effects s @ registration_errors env i ssr s\<rparr>"
  by (simp add: registration_errors_def emit_def)

lemma registerMissingImport_known:
  assumes "known_dep s i = Some e"
  shows "registerMissingImport env i resolved ssr s =
     Inr (e, s\<lparr>effects := effects s @ registration_errors env i ssr s\<rparr>)"
proof -
  let ?s2 = "s\<lparr>effects := effects s @ registration_errors env i ssr s\<rparr>"
  have l: "metas ?s2 (cur_metadata ?s2) = metas s (cur_metadata s)" by simp
  show ?thesis
    unfolding registerMissingImport_def Let_def registration_state l
    using assms by (simp add: known_dep_def split: option.splits)
qed


lemma known_dep_cong:
  "metas s' = metas s \<Longrightarrow> cur_metadata s' = cur_metadata s \<Longrightarrow> known_dep s' i = known_dep s i"
  by (simp add: known_dep_def cong: option.case_cong)

lemma debouncedProcessing_store:
  "metas (debouncedProcessing t s) = metas s" "infos (debouncedProcessing t s) = infos s"
  "cur_metadata (debouncedProcessing t s) = cur_metadata s"
  by (simp_all add: debouncedProcessing_def Let_def clear_handle_eq setTimeout_def split_def)

lemma known_dep_debounced:
  "known_dep (debouncedProcessing t s) i = known_dep s i"
  by (rule known_dep_cong) (simp_all add: debouncedProcessing_store)

lemma registerMissingImport_new:
  assumes "known_dep s i = None"
  shows "\<exists>s1. registerMissingImport env i resolved ssr s = Inr (next_ref s, s1) \<and>
           known_dep s1 i = Some (next_ref s)"
proof -
  let ?s2 = "s\<lparr>effects := effects s @ registration_errors env i ssr s\<rparr>"
  have l: "metas ?s2 (cur_metadata ?s2) = metas s (cur_metadata s)" by simp
  from assms have none: "map_of (optimized (metas s (cur_metadata s))) i = None"
    "map_of (chunks (metas s (cur_metadata s))) i = None"
    "map_of (discovered (metas s (cur_metadata s))) i = None"
    by (auto simp: known_dep_def split: option.splits)
  then have notin: "i \<notin> fst ` set (optimized (metas s (cur_metadata s)))"
    "i \<notin> fst ` set (chunks (metas s (cur_metadata s)))"
    by (simp_all add: map_of_eq_None_iff)
  have k: "known_dep (t\<lparr>metas := (metas s)(cur_metadata s :=
             (metas s (cur_metadata s))\<lparr>discovered :=
                AList.update i r (discovered (metas s (cur_metadata s)))\<rparr>)\<rparr>) i = Some r"
    if "cur_metadata t = cur_metadata s" for t r
    using none that by (simp add: known_dep_def update_conv')
  show ?thesis
    unfolding registerMissingImport_def Let_def registration_state l none option.case
    using notin
    by (simp add: split_def alloc_info_def addOptimizedDepInfo_def Let_def
        known_dep_debounced k)
qed

text \<open>
  Claim C5. A call of \<^verbatim>\<open>registerMissingImport\<close> returns an entry, and a second call
  with the same arguments on the state the first one left returns the same
  reference and changes nothing but the log of errors: the discovered map does not
  grow, the optimized map and the chunks are untouched, no timer is armed. When the
  id is already in the optimized map or in the chunks, the first call returns that
  entry and changes nothing but the log either.
\<close>

theorem registerMissingImport_idempotent:
  "\<exists>r s1. registerMissingImport env i resolved ssr s = Inr (r, s1) \<and>
      known_dep s1 i = Some r \<and>
      registerMissingImport env i resolved ssr s1 =
        Inr (r, s1\<lparr>effects := effects s1 @ registration_errors env i ssr s1\<rparr>) \<and>
      (\<forall>e. map_of (optimized (metas s (cur_metadata s))) i = Some e \<or>
            map_of (optimized (metas s (cur_metadata s))) i = None \<and>
            map_of (chunks (metas s (cur_metadata s))) i = Some e \<longrightarrow>
         r = e \<and> s1 = s\<lparr>effects := effects s @ registration_errors env i ssr s\<rparr>)"
proof (cases "known_dep s i")
  case None
  from registerMissingImport_new [OF None, of env resolved ssr]
  obtain s1 where 1: "registerMissingImport env i resolved ssr s = Inr (next_ref s, s1)"
    and k: "known_dep s1 i = Some (next_ref s)" by blast
  from None have "\<not> (map_of (optimized (metas s (cur_metadata s))) i = Some e \<or>
            map_of (optimized (metas s (cur_metadata s))) i = None \<and>
            map_of (chunks (metas s (cur_metadata s))) i = Some e)" for e
    by (auto simp: known_dep_def split: option.splits)
  with 1 k registerMissingImport_known [OF k, of env resolved ssr] show ?thesis
    by (intro exI [of _ "next_ref s"] exI [of _ s1]) blast
next
  case (Some e)
  let ?s1 = "s\<lparr>effects := effects s @ registration_errors env i ssr s\<rparr>"
  have k: "known_dep ?s1 i = Some e" using Some known_dep_cong [of ?s1 s i] by simp
  from Some have "e' = e" if "map_of (optimized (metas s (cur_metadata s))) i = Some e' \<or>
            map_of (optimized (metas s (cur_metadata s))) i = None \<and>
            map_of (chunks (metas s (cur_metadata s))) i = Some e'" for e'
    using that by (auto simp: known_dep_def split: option.splits)
  with registerMissingImport_known [OF Some, of env resolved ssr]
    registerMissingImport_known [OF k, of env resolved ssr] k
  show ?thesis
    by (intro exI [of _ e] exI [of _ ?s1]) blast
qed

theorem registerMissingImport_idempotent_witness:
  "map_of (optimized (metas demo_running (cur_metadata demo_running))) ''vue'' = Some 0 \<and>
   registerMissingImport demo_env ''vue'' ''/src/vue'' None demo_running =
     Inr (0, demo_running\<lparr>effects := effects demo_running @
               registration_errors demo_env ''vue'' None demo_running\<rparr>)"
proof -
  have v: "map_of (optimized (metas demo_running (cur_metadata demo_running))) ''vue'' = Some 0"
    by (simp add: demo_running_def empty_state_def)
  from registerMissingImport_idempotent [of demo_env "''vue''" "''/src/vue''" None demo_running]
  obtain r s1 where
    a: "registerMissingImport demo_env ''vue'' ''/src/vue'' None demo_running = Inr (r, s1)"
    and b: "\<forall>e. map_of (optimized (metas demo_running (cur_metadata demo_running))) ''vue'' = Some e \<or>
            map_of (optimized (metas demo_running (cur_metadata demo_running))) ''vue'' = None \<and>
            map_of (chunks (metas demo_running (cur_metadata demo_running))) ''vue'' = Some e \<longrightarrow>
         r = e \<and> s1 = demo_running\<lparr>effects := effects demo_running @
               registration_errors demo_env ''vue'' None demo_running\<rparr>"
    by blast
  from b v have "r = 0 \<and> s1 = demo_running\<lparr>effects := effects demo_running @
               registration_errors demo_env ''vue'' None demo_running\<rparr>"
    by blast
  with a v show ?thesis by blast
qed

section \<open>The idle tracker waits for the latest request first\<close>




section \<open>Running with nothing discovered\<close>

lemma run_eq:
  "run s =
     s\<lparr>enqueuedRerun := False,
       timers := (filter (\<lambda>t. Some (fst t) \<noteq> handle s \<and> Some (fst t) \<noteq> newDepsToLogHandle s)
                   (timers s)) @ [(next_ref s, 0, RerunTimer)],
       newDepsToLogHandle := None, next_ref := Suc (next_ref s), handle := Some (next_ref s)\<rparr>"
  by (cases "handle s"; cases "newDepsToLogHandle s")
     (auto simp add: run_def debouncedProcessing_def Let_def clear_handle_def clearTimeout_def
        setTimeout_def split_def intro!: filter_cong)

lemma find_fresh_timer:
  assumes "h \<notin> fst ` set ts"
  shows "find (\<lambda>t. fst t = h) (filter P ts @ [(h, ms, cb)]) = Some (h, ms, cb)"
    "filter (\<lambda>t. fst t \<noteq> h) (filter P ts @ [(h, ms, cb)]) = filter P ts"
  using assms by (induction ts) auto

lemma run_then_timer:
  assumes "discovered (metas s (cur_metadata s)) = []"
  shows "rerun env s =
           ((clear_handle (handle s) s)\<lparr>firstRunCalled := True, enqueuedRerun := False,
              currentlyProcessing := False\<rparr>, None) \<and>
         (\<not> currentlyProcessing s \<and> next_ref s \<notin> fst ` set (timers s) \<longrightarrow>
          fire_timer env (next_ref s) (run s) =
            (s\<lparr>firstRunCalled := True, enqueuedRerun := False, currentlyProcessing := False,
               handle := None, newDepsToLogHandle := None,
               timers := filter (\<lambda>t. Some (fst t) \<noteq> handle s \<and>
                                      Some (fst t) \<noteq> newDepsToLogHandle s) (timers s),
               next_ref := Suc (next_ref s)\<rparr>, None))"
proof (intro conjI impI)
  show "rerun env s =
           ((clear_handle (handle s) s)\<lparr>firstRunCalled := True, enqueuedRerun := False,
              currentlyProcessing := False\<rparr>, None)"
    using assms by (simp add: rerun_def runOptimizer_start_empty)
next
  assume a: "\<not> currentlyProcessing s \<and> next_ref s \<notin> fst ` set (timers s)"
  let ?P = "\<lambda>t. Some (fst t) \<noteq> handle s \<and> Some (fst t) \<noteq> newDepsToLogHandle s"
  let ?r = "run s"
  have r: "timers ?r = filter ?P (timers s) @ [(next_ref s, 0, RerunTimer)]"
    by (simp add: run_eq)
  from a have nin: "next_ref s \<notin> fst ` set (timers s)" by simp
  have f: "find (\<lambda>t. fst t = next_ref s) (timers ?r) = Some (next_ref s, 0, RerunTimer)"
    "filter (\<lambda>t. fst t \<noteq> next_ref s) (timers ?r) = filter ?P (timers s)"
    unfolding r by (rule find_fresh_timer [OF nin])+
  let ?c = "clearTimeout (next_ref s) ?r"
  have c: "?c = s\<lparr>enqueuedRerun := False, timers := filter ?P (timers s),
       newDepsToLogHandle := None, next_ref := Suc (next_ref s), handle := Some (next_ref s)\<rparr>"
    unfolding clearTimeout_def f(2) by (simp add: run_eq)
  have "fire_timer env (next_ref s) ?r = rerun_timer env ?c"
    by (simp add: fire_timer_def f(1) Let_def)
  also have "\<dots> = rerun env (?c\<lparr>handle := None, enqueuedRerun := True\<rparr>)"
    using a by (simp add: rerun_timer_def Let_def c)
  also have "\<dots> = (s\<lparr>firstRunCalled := True, enqueuedRerun := False, currentlyProcessing := False,
               handle := None, newDepsToLogHandle := None,
               timers := filter ?P (timers s),
               next_ref := Suc (next_ref s)\<rparr>, None)"
    using assms by (simp add: rerun_def runOptimizer_start_empty c clear_handle_def)
  finally show "fire_timer env (next_ref s) (run s) =
            (s\<lparr>firstRunCalled := True, enqueuedRerun := False, currentlyProcessing := False,
               handle := None, newDepsToLogHandle := None,
               timers := filter ?P (timers s),
               next_ref := Suc (next_ref s)\<rparr>, None)" .
qed

text \<open>
  Claim C6, as amended. When the discovered map is empty, the rerun that \<^verbatim>\<open>run\<close>
  starts returns early: the bundler is not called and no frame is left. The store,
  \<^verbatim>\<open>_metadata\<close>, the resolve-queue, the barrier, the flag of new dependencies, the
  idle tracker and the log are as before. The state is not unchanged, though: the
  rerun sets \<^verbatim>\<open>firstRunCalled\<close>, clears \<^verbatim>\<open>currentlyProcessing\<close> and the enqueued rerun,
  and \<^verbatim>\<open>run\<close> itself cancels the pending timer of a rerun and the pending timer that
  logs the new dependencies.
\<close>

theorem run_without_discovered:
  assumes "discovered (metas s (cur_metadata s)) = []"
  shows "rerun env s =
           ((clear_handle (handle s) s)\<lparr>firstRunCalled := True, enqueuedRerun := False,
              currentlyProcessing := False\<rparr>, None) \<and>
         (\<not> currentlyProcessing s \<and> next_ref s \<notin> fst ` set (timers s) \<longrightarrow>
          fire_timer env (next_ref s) (run s) =
            (s\<lparr>firstRunCalled := True, enqueuedRerun := False, currentlyProcessing := False,
               handle := None, newDepsToLogHandle := None,
               timers := filter (\<lambda>t. Some (fst t) \<noteq> handle s \<and>
                                      Some (fst t) \<noteq> newDepsToLogHandle s) (timers s),
               next_ref := Suc (next_ref s)\<rparr>, None))"
  using assms by (rule run_then_timer)

theorem run_without_discovered_witness:
  "discovered (metas demo_cold (cur_metadata demo_cold)) = [] \<and>
   \<not> currentlyProcessing demo_cold \<and> next_ref demo_cold \<notin> fst ` set (timers demo_cold) \<and>
   snd (fire_timer demo_env (next_ref demo_cold) (run demo_cold)) = None \<and>
   effects (fst (fire_timer demo_env (next_ref demo_cold) (run demo_cold))) = [] \<and>
   cur_metadata (fst (fire_timer demo_env (next_ref demo_cold) (run demo_cold))) = 0"
proof -
  have d: "discovered (metas demo_cold (cur_metadata demo_cold)) = []"
    by (simp add: demo_cold_def empty_state_def)
  have n: "\<not> currentlyProcessing demo_cold \<and> next_ref demo_cold \<notin> fst ` set (timers demo_cold)"
    "effects demo_cold = []" "cur_metadata demo_cold = 0"
    by (simp_all add: demo_cold_def empty_state_def)
  from run_without_discovered [OF d, of demo_env] d n show ?thesis by simp
qed

text \<open>The claim as stated fails on a cold start: after \<^verbatim>\<open>run\<close> and its timer,
  \<^verbatim>\<open>firstRunCalled\<close> is true, and from then on \<^verbatim>\<open>registerMissingImport\<close> arms the
  debounce timer, which it did not do before.\<close>

theorem run_not_noop_counterexample:
  "discovered (metas demo_cold (cur_metadata demo_cold)) = [] \<and>
   fst (fire_timer demo_env 2 (run demo_cold)) \<noteq> demo_cold \<and>
   \<not> firstRunCalled demo_cold \<and>
   firstRunCalled (fst (fire_timer demo_env 2 (run demo_cold))) \<and>
   timers (snd (projr (registerMissingImport demo_env ''vue'' ''/src/vue'' None demo_cold))) = [] \<and>
   timers (snd (projr (registerMissingImport demo_env ''vue'' ''/src/vue'' None
                         (fst (fire_timer demo_env 2 (run demo_cold)))))) =
     [(4, 100, RerunTimer)]"
proof -
  have d: "discovered (metas demo_cold (cur_metadata demo_cold)) = []"
    by (simp add: demo_cold_def empty_state_def)
  have n: "\<not> currentlyProcessing demo_cold \<and> next_ref demo_cold \<notin> fst ` set (timers demo_cold)"
    "next_ref demo_cold = 2" "\<not> firstRunCalled demo_cold"
    by (simp_all add: demo_cold_def empty_state_def)
  let ?s = "demo_cold\<lparr>firstRunCalled := True, enqueuedRerun := False, currentlyProcessing := False,
               handle := None, newDepsToLogHandle := None,
               timers := filter (\<lambda>t. Some (fst t) \<noteq> handle demo_cold \<and>
                                      Some (fst t) \<noteq> newDepsToLogHandle demo_cold) (timers demo_cold),
               next_ref := Suc (next_ref demo_cold)\<rparr>"
  from run_then_timer [OF d, of demo_env] n
  have e: "fire_timer demo_env 2 (run demo_cold) = (?s, None)" by simp
  have f: "firstRunCalled ?s" by simp
  with n(3) have ne: "?s \<noteq> demo_cold" by metis
  have r1: "timers (snd (projr (registerMissingImport demo_env ''vue'' ''/src/vue'' None
      demo_cold))) = []"
    by (simp add: registerMissingImport_def demo_cold_def empty_state_def demo_env_def Let_def
        alloc_info_def addOptimizedDepInfo_def scan_def)
  have r2: "timers (snd (projr (registerMissingImport demo_env ''vue'' ''/src/vue'' None ?s))) =
      [(4, 100, RerunTimer)]"
    by (simp add: registerMissingImport_def demo_cold_def empty_state_def demo_env_def Let_def
        alloc_info_def addOptimizedDepInfo_def scan_def debouncedProcessing_def clear_handle_def
        setTimeout_def debounceMs_def)
  from d e f ne n(3) r1 r2 show ?thesis by simp
qed

section \<open>A reload put off\<close>

lemma awaiting_cong:
  assumes "currentlyProcessing s' = currentlyProcessing s" "firstRunCalled s' = firstRunCalled s"
    "timers s' = timers s" "next_ref s' = next_ref s" "cur_metadata s' = cur_metadata s"
    "metas s' = metas s" "newDepsDiscovered s' = newDepsDiscovered s"
    "enqueuedRerun s' = enqueuedRerun s" "handle s' = handle s"
  shows "awaiting_bundler s' = awaiting_bundler s"
  by (simp add: awaiting_bundler_def timers_allocated_def rerun_scheduled_def assms
      cong: option.case_cong)

lemma debouncedProcessing_eq:
  "debouncedProcessing ms s =
     s\<lparr>enqueuedRerun := False,
       timers := (filter (\<lambda>t. Some (fst t) \<noteq> handle s \<and> Some (fst t) \<noteq> newDepsToLogHandle s)
                   (timers s)) @ [(next_ref s, ms, RerunTimer)],
       newDepsToLogHandle := None, next_ref := Suc (next_ref s), handle := Some (next_ref s)\<rparr>"
  by (cases "handle s"; cases "newDepsToLogHandle s")
     (auto simp add: debouncedProcessing_def Let_def clear_handle_def clearTimeout_def
        setTimeout_def split_def intro!: filter_cong)

lemma awaiting_debounced:
  assumes "currentlyProcessing s" "firstRunCalled s" "timers_allocated s"
    "cur_metadata s < next_ref s" "discovered (metas s (cur_metadata s)) \<noteq> []"
  shows "awaiting_bundler (debouncedProcessing ms s)"
proof -
  from assms(3) have "next_ref s \<notin> fst ` set (timers s)"
    by (auto simp: timers_allocated_def)
  note f = find_fresh_timer(1) [OF this]
  from assms show ?thesis
    unfolding debouncedProcessing_eq awaiting_bundler_def rerun_scheduled_def timers_allocated_def
    by (auto simp: f less_Suc_eq)
qed

lemma find_filter_other:
  "h \<noteq> h0 \<Longrightarrow> find (\<lambda>t. fst t = h0) (filter (\<lambda>t. fst t \<noteq> h) ts) = find (\<lambda>t. fst t = h0) ts"
  by (induction ts) auto

lemma find_append_keep:
  "find P xs = Some x \<Longrightarrow> find P (xs @ ys) = Some x"
  by (induction xs) (auto split: if_splits)

lemma awaiting_setTimeout:
  assumes "awaiting_bundler s"
  shows "awaiting_bundler (snd (setTimeout cb ms s))"
  using assms
  by (auto simp: awaiting_bundler_def timers_allocated_def rerun_scheduled_def setTimeout_def
      less_Suc_eq find_append_keep split: option.splits)

lemma awaiting_clear_other:
  assumes "awaiting_bundler s" and "find (\<lambda>t. fst t = h) (timers s) = Some (t, ms, cb)"
    and "cb \<noteq> RerunTimer"
  shows "awaiting_bundler (clearTimeout h s)"
proof -
  have "rerun_scheduled (clearTimeout h s)" if sch: "rerun_scheduled s"
  proof (cases "enqueuedRerun s")
    case True
    then show ?thesis by (simp add: rerun_scheduled_def clearTimeout_def)
  next
    case False
    with sch obtain h0 t0 ms0 where h0: "handle s = Some h0"
      and f0: "find (\<lambda>t. fst t = h0) (timers s) = Some (t0, ms0, RerunTimer)"
      by (auto simp: rerun_scheduled_def split: option.splits)
    with assms(2,3) have "h \<noteq> h0" by auto
    from find_filter_other [OF this, of "timers s"] h0 f0 show ?thesis
      by (simp add: rerun_scheduled_def clearTimeout_def)
  qed
  with assms(1) show ?thesis
    by (auto simp: awaiting_bundler_def timers_allocated_def clearTimeout_def)
qed

lemma awaiting_fire_timer:
  assumes "awaiting_bundler s"
  shows "awaiting_bundler (fst (fire_timer env h s)) \<and> snd (fire_timer env h s) = None"
proof (cases "find (\<lambda>t. fst t = h) (timers s)")
  case None
  with assms show ?thesis by (simp add: fire_timer_def)
next
  case (Some x)
  obtain t ms cb where x: "x = (t, ms, cb)" by (cases x)
  note fnd = Some [unfolded x]
  from assms have cp: "currentlyProcessing s" "firstRunCalled s"
    by (simp_all add: awaiting_bundler_def)
  show ?thesis
  proof (cases "cb = RerunTimer")
    case True
    with fnd cp assms show ?thesis
      by (auto simp add: fire_timer_def Let_def rerun_timer_def clearTimeout_def
          awaiting_bundler_def timers_allocated_def rerun_scheduled_def)
  next
    case False
    note c = awaiting_clear_other [OF assms fnd False]
    have cp1: "firstRunCalled (clearTimeout h s)" using cp by (simp add: clearTimeout_def)
    show ?thesis
    proof (cases cb)
      case RerunTimer
      with False show ?thesis by simp
    next
      case LogDepsTimer
      have "awaiting_bundler (logDeps_timer (clearTimeout h s)) = awaiting_bundler (clearTimeout h s)"
        by (rule awaiting_cong)
           (simp_all add: logDeps_timer_def logNewlyDiscoveredDeps_def emit_def)
      with c LogDepsTimer fnd show ?thesis by (simp add: fire_timer_def Let_def)
    next
      case (AfterLoad i)
      have "awaiting_bundler (afterLoad env i (clearTimeout h s)) = awaiting_bundler (clearTimeout h s)"
        by (rule awaiting_cong) (simp_all add: afterLoad_def Let_def cp1)
      with c AfterLoad fnd show ?thesis by (simp add: fire_timer_def Let_def)
    next
      case EnsureFirstRunTimer
      with c fnd cp1 show ?thesis
        by (simp add: fire_timer_def Let_def ensureFirstRun_timer_def)
    next
      case ScanTimer
      have "awaiting_bundler (emit DiscoverProjectDependencies (clearTimeout h s)) =
          awaiting_bundler (clearTimeout h s)"
        by (rule awaiting_cong) (simp_all add: emit_def)
      with c ScanTimer fnd show ?thesis by (simp add: fire_timer_def Let_def scan_timer_def)
    qed
  qed
qed

lemma awaiting_runOptimizerWhenIdle:
  "awaiting_bundler (runOptimizerWhenIdle s) = awaiting_bundler s"
  by (rule awaiting_cong) (simp_all add: runOptimizerWhenIdle_def Let_def emit_def)

lemma update_not_Nil: "AList.update k v al \<noteq> []"
  by (cases al) auto

lemma awaiting_register:
  assumes j: "awaiting_bundler s" and r: "registerMissingImport env i resolved ssr s = Inr (e, s')"
  shows "awaiting_bundler s'"
proof (cases "known_dep s i")
  case (Some k)
  from r registerMissingImport_known [OF Some, of env resolved ssr]
  have "s' = s\<lparr>effects := effects s @ registration_errors env i ssr s\<rparr>" by simp
  then have "awaiting_bundler s' = awaiting_bundler s"
    by (intro awaiting_cong) simp_all
  with j show ?thesis by simp
next
  case None
  let ?s2 = "s\<lparr>effects := effects s @ registration_errors env i ssr s\<rparr>"
  have l: "metas ?s2 (cur_metadata ?s2) = metas s (cur_metadata s)" by simp
  from None have none: "map_of (optimized (metas s (cur_metadata s))) i = None"
    "map_of (chunks (metas s (cur_metadata s))) i = None"
    "map_of (discovered (metas s (cur_metadata s))) i = None"
    by (auto simp: known_dep_def split: option.splits)
  then have notin: "i \<notin> fst ` set (optimized (metas s (cur_metadata s)))"
    "i \<notin> fst ` set (chunks (metas s (cur_metadata s)))"
    by (simp_all add: map_of_eq_None_iff)
  from j have cp: "currentlyProcessing s" "firstRunCalled s" "timers_allocated s"
    "cur_metadata s < next_ref s"
    by (simp_all add: awaiting_bundler_def)
  have "\<exists>t. s' = debouncedProcessing debounceMs t \<and> currentlyProcessing t \<and> firstRunCalled t \<and>
      timers_allocated t \<and> cur_metadata t < next_ref t \<and>
      discovered (metas t (cur_metadata t)) \<noteq> []"
    using r cp notin
    unfolding registerMissingImport_def Let_def registration_state l none option.case
    by (fastforce simp add: split_def alloc_info_def addOptimizedDepInfo_def Let_def
        timers_allocated_def less_Suc_eq update_not_Nil
        intro!: exI [where x = "_ :: state"])
  then show ?thesis by (auto intro: awaiting_debounced)
qed


lemma awaiting_interleaved:
  assumes "interleaved env s s'" and j: "awaiting_bundler s"
  shows "awaiting_bundler s'"
  using assms(1)
proof cases
  case (il_register i resolved ssr r)
  from awaiting_register [OF j this] show ?thesis .
next
  case il_run
  from j have "awaiting_bundler (debouncedProcessing 0 s)"
    by (intro awaiting_debounced) (simp_all add: awaiting_bundler_def)
  with il_run show ?thesis by (simp add: run_def)
next
  case (il_workers i)
  have "awaiting_bundler (registerWorkersSource i s) = awaiting_bundler s"
    by (rule awaiting_cong)
       (simp_all add: registerWorkersSource_def Let_def runOptimizerWhenIdle_def emit_def)
  with j il_workers show ?thesis by simp
next
  case (il_delay i d)
  have "awaiting_bundler (delayDepsOptimizerUntil env i d s) = awaiting_bundler s"
    by (rule awaiting_cong)
       (simp_all add: delayDepsOptimizerUntil_def Let_def runOptimizerWhenIdle_def emit_def)
  with j il_delay show ?thesis by simp
next
  case il_reset
  have "awaiting_bundler (resetRegisteredIds s) = awaiting_bundler s"
    by (rule awaiting_cong) (simp_all add: resetRegisteredIds_def)
  with j il_reset show ?thesis by simp
next
  case il_ensure
  from j have f: "firstRunCalled s" by (simp add: awaiting_bundler_def)
  have "awaiting_bundler (ensureFirstRun s) = awaiting_bundler s"
    by (rule awaiting_cong) (simp_all add: ensureFirstRun_def Let_def f)
  with j il_ensure show ?thesis by simp
next
  case (il_timer h)
  with awaiting_fire_timer [OF j, of env h] show ?thesis by simp
next
  case (il_done_fulfilled i)
  with awaiting_setTimeout [OF j] show ?thesis by (simp add: done_fulfilled_def)
next
  case (il_done_rejected i)
  from j have f: "firstRunCalled s" by (simp add: awaiting_bundler_def)
  have "awaiting_bundler (afterLoad env i s) = awaiting_bundler s"
    by (rule awaiting_cong) (simp_all add: afterLoad_def Let_def f)
  with j il_done_rejected show ?thesis by (simp add: done_rejected_def)
qed

lemma awaiting_bundling:
  assumes "bundling env s s'" and "awaiting_bundler s"
  shows "awaiting_bundler s'"
  using assms unfolding bundling_def
  by (induction rule: rtranclp_induct) (auto intro: awaiting_interleaved)

lemma interleaved_step: "interleaved env s s' \<Longrightarrow> step env s s'"
  by (induction rule: interleaved.induct) (auto intro: step.intros)

lemma bundling_steps: "bundling env s s' \<Longrightarrow> steps env s s'"
  unfolding bundling_def steps_def
  by (induction rule: rtranclp_induct) (auto dest: interleaved_step)

lemma awaiting_start:
  assumes "runOptimizer_start env s0 = (s1, Some fr)" and "timers_allocated s0"
    and "cur_metadata s0 < next_ref s0"
  shows "awaiting_bundler s1"
  using assms
  by (cases "handle s0")
     (fastforce simp add: runOptimizer_start_def Let_def clear_handle_def clearTimeout_def emit_def
        newDepOptimizationProcessing_def awaiting_bundler_def timers_allocated_def less_Suc_eq
      split: if_splits)+

lemma runOptimizer_start_Some:
  assumes "discovered (metas s (cur_metadata s)) \<noteq> []"
  shows "\<exists>s' f. runOptimizer_start env s = (s', Some f) \<and> currentlyProcessing s'"
  using assms
  by (cases "handle s")
     (simp_all add: runOptimizer_start_def Let_def clear_handle_def clearTimeout_def emit_def
        newDepOptimizationProcessing_def)

lemma find_fst: "find (\<lambda>t. fst t = h) ts = Some (x, y) \<Longrightarrow> x = h"
  by (induction ts) (auto split: if_splits)

lemma cancel_follow_up:
  assumes j: "awaiting_bundler s"
    and a: "alloc_metadata b s = (newData, s1)"
    and n: "newDepsDiscovered s"
    and fin: "runOptimizer_finish env (emit (BundlerCancel newData) s1) = (s', nxt)"
  shows "(enqueuedRerun s \<longrightarrow>
            (\<exists>f. nxt = Some f \<and> fr_metadata f = cur_metadata s \<and>
               depOptimizationProcessingQueue s' =
                 depOptimizationProcessingQueue s @ [depOptimizationProcessing s])) \<and>
         (\<not> enqueuedRerun s \<longrightarrow> nxt = None \<and>
            (\<exists>h ms t f. handle s' = Some h \<and>
               find (\<lambda>x. fst x = h) (timers s') = Some (h, ms, RerunTimer) \<and>
               fire_timer env h s' = (t, Some f) \<and> fr_metadata f = cur_metadata s \<and>
               depOptimizationProcessingQueue t =
                 depOptimizationProcessingQueue s @ [depOptimizationProcessing s]))"
proof -
  note af = alloc_metadata_facts [OF a]
  note os = only_store_fields [OF af(14)]
  let ?t = "emit (BundlerCancel newData) s1"
  from j have cur: "cur_metadata s < next_ref s"
    and dis: "discovered (metas s (cur_metadata s)) \<noteq> []"
    and sch: "rerun_scheduled s"
    using n by (simp_all add: awaiting_bundler_def)
  from cur af(1,4) have m: "metas s1 (cur_metadata s) = metas s (cur_metadata s)" by simp
  have t: "enqueuedRerun ?t = enqueuedRerun s" "cur_metadata ?t = cur_metadata s"
    "metas ?t = metas s1" "timers ?t = timers s" "handle ?t = handle s"
    "depOptimizationProcessingQueue ?t = depOptimizationProcessingQueue s"
    "depOptimizationProcessing ?t = depOptimizationProcessing s"
    by (simp_all add: emit_def os)
  show ?thesis
  proof (cases "enqueuedRerun s")
    case True
    let ?u = "?t\<lparr>currentlyProcessing := False\<rparr>"
    have "discovered (metas ?u (cur_metadata ?u)) \<noteq> []" using dis by (simp add: t m)
    from runOptimizer_start_Some [OF this, of env] obtain u' f
      where st: "runOptimizer_start env ?u = (u', Some f)" by blast
    from True fin st have nxt: "nxt = Some f"
      by (simp add: runOptimizer_finish_def Let_def rerun_def t)
    from runOptimizer_finish_store [OF fin] nxt True show ?thesis by (simp add: t)
  next
    case False
    with fin have s': "s' = ?t\<lparr>currentlyProcessing := False\<rparr>" and nxt: "nxt = None"
      by (simp_all add: runOptimizer_finish_def Let_def t)
    from False sch obtain h x ms where h: "handle s = Some h"
      and f: "find (\<lambda>t. fst t = h) (timers s) = Some (x, ms, RerunTimer)"
      by (auto simp: rerun_scheduled_def split: option.splits)
    from f have "x = h" by (rule find_fst)
    with f have f': "find (\<lambda>t. fst t = h) (timers s') = Some (h, ms, RerunTimer)"
      by (simp add: s' t)
    let ?u = "(clearTimeout h s')\<lparr>handle := None, enqueuedRerun := True\<rparr>"
    have u: "cur_metadata ?u = cur_metadata s" "metas ?u = metas s1"
      "depOptimizationProcessingQueue ?u = depOptimizationProcessingQueue s"
      "depOptimizationProcessing ?u = depOptimizationProcessing s"
      by (simp_all add: s' clearTimeout_def t)
    then have "discovered (metas ?u (cur_metadata ?u)) \<noteq> []" using dis m by simp
    from runOptimizer_start_Some [OF this, of env] obtain u' g
      where st: "runOptimizer_start env ?u = (u', Some g)" by blast
    have fire: "fire_timer env h s' = (u', Some g)"
      using f' st by (simp add: fire_timer_def Let_def rerun_timer_def rerun_def s' clearTimeout_def)
    from runOptimizer_start_store [OF st] u
    have "fr_metadata g = cur_metadata s"
      "depOptimizationProcessingQueue u' =
         depOptimizationProcessingQueue s @ [depOptimizationProcessing s]"
      by simp_all
    with False nxt h f' fire show ?thesis by (auto simp: s' t)
  qed
qed

text \<open>
  Claim C3. A rerun was started, and while it waited for the bundler any calls of the
  interface and callbacks of timers took place. When it then computes
  \<^verbatim>\<open>needsReload = true\<close> and the flag \<^verbatim>\<open>newDepsDiscovered\<close> is set, the executor calls
  \<^verbatim>\<open>cancel\<close> on the bundler's result and nothing else but, at most, the bundler for
  the next rerun: no commit, no full reload. No promise is fulfilled, every promise of
  the resolve-queue stays in it, \<^verbatim>\<open>_metadata\<close> is the same reference to the same
  snapshot, with the same infos. The follow-up rerun is scheduled: either it was
  enqueued and starts at the end of this rerun, or its timer is pending under
  \<^verbatim>\<open>handle\<close> and starts it when it fires; in both cases on the same snapshot and
  with the waiting promises in its resolve-queue. Whatever steps follow, the next
  commit fulfils the promises that were waiting.
\<close>

theorem cancel_on_new_deps:
  assumes st: "runOptimizer_start env s0 = (sr, Some fr)"
    and wf: "timers_allocated s0" "cur_metadata s0 < next_ref s0"
    and mid: "bundling env sr s"
    and a: "alloc_metadata b s = (newData, s1)"
    and r: "needsReload s1 (fr_metadata fr) newData = Inr True"
    and n: "newDepsDiscovered s"
    and run: "runOptimizer_bundled env fr (Inr b) s = (s', out)"
  shows "(\<exists>rest. effects s' = effects s @ BundlerCancel newData # rest \<and>
            (rest = [] \<or> (\<exists>d. rest = [RunOptimizeDeps d]))) \<and>
         fulfilled s' = fulfilled s \<and>
         set (depOptimizationProcessingQueue s) \<subseteq> set (depOptimizationProcessingQueue s') \<and>
         cur_metadata s' = cur_metadata s \<and>
         metas s' (cur_metadata s') = metas s (cur_metadata s) \<and>
         (\<forall>r < next_ref s. infos s' r = infos s r) \<and>
         filter reload_effect (effects s') = filter reload_effect (effects s) \<and>
         (enqueuedRerun s \<longrightarrow>
            (\<exists>f. out = Finished (Some f) \<and> fr_metadata f = cur_metadata s \<and>
               depOptimizationProcessingQueue s' =
                 depOptimizationProcessingQueue s @ [depOptimizationProcessing s])) \<and>
         (\<not> enqueuedRerun s \<longrightarrow> out = Finished None \<and>
            (\<exists>h ms t f. handle s' = Some h \<and>
               find (\<lambda>x. fst x = h) (timers s') = Some (h, ms, RerunTimer) \<and>
               fire_timer env h s' = (t, Some f) \<and> fr_metadata f = cur_metadata s \<and>
               depOptimizationProcessingQueue t =
                 depOptimizationProcessingQueue s @ [depOptimizationProcessing s])) \<and>
         (\<forall>cf s2 s3. steps env s' s2 \<longrightarrow> commitProcessing cf s2 = Inr s3 \<longrightarrow>
            set (depOptimizationProcessingQueue s) \<subseteq> fulfilled s3)"
proof -
  from awaiting_bundling [OF mid awaiting_start [OF st wf]] have j: "awaiting_bundler s" .
  then have m: "cur_metadata s < next_ref s" by (simp add: awaiting_bundler_def)
  note af = alloc_metadata_facts [OF a]
  note os = only_store_fields [OF af(14)]
  let ?t = "emit (BundlerCancel newData) s1"
  obtain nxt where fin: "runOptimizer_finish env ?t = (s', nxt)" and out: "out = Finished nxt"
    using run a r n os(6)
    by (auto simp: runOptimizer_bundled_def Let_def split: prod.splits)
  note f = runOptimizer_finish_store [OF fin]
  note fu = cancel_follow_up [OF j a n fin]
  have t: "effects ?t = effects s @ [BundlerCancel newData]" "fulfilled ?t = fulfilled s"
    "depOptimizationProcessingQueue ?t = depOptimizationProcessingQueue s"
    "cur_metadata ?t = cur_metadata s" "infos ?t = infos s1" "metas ?t = metas s1"
    by (simp_all add: emit_def os)
  have eff: "\<exists>rest. effects s' = effects s @ BundlerCancel newData # rest \<and>
            (rest = [] \<or> (\<exists>d. rest = [RunOptimizeDeps d]))"
    using f t by (cases nxt) auto
  then have rel: "filter reload_effect (effects s') = filter reload_effect (effects s)"
    by auto
  have q: "set (depOptimizationProcessingQueue s) \<subseteq> set (depOptimizationProcessingQueue s')"
    using f t by (cases nxt) auto
  have md: "metas s' (cur_metadata s') = metas s (cur_metadata s)"
    using f t af(1,4) m by auto
  have inf: "\<forall>r < next_ref s. infos s' r = infos s r"
    using f t af(3) by simp
  have later: "set (depOptimizationProcessingQueue s) \<subseteq> fulfilled s3"
    if st: "steps env s' s2" and c: "commitProcessing cf s2 = Inr s3" for cf s2 s3
  proof -
    from steps_keeps [OF st] q
    have "set (depOptimizationProcessingQueue s) \<subseteq>
        set (depOptimizationProcessingQueue s2) \<union> fulfilled s2"
      by (auto simp: keeps_def)
    moreover from commitProcessing_Inr [OF c]
    have "fulfilled s3 = fulfilled s2 \<union> set (depOptimizationProcessingQueue s2)"
      by auto
    ultimately show ?thesis by auto
  qed
  have f1: "fulfilled s' = fulfilled s" "cur_metadata s' = cur_metadata s"
    using f t by simp_all
  from fu out have fu': "(enqueuedRerun s \<longrightarrow>
            (\<exists>f. out = Finished (Some f) \<and> fr_metadata f = cur_metadata s \<and>
               depOptimizationProcessingQueue s' =
                 depOptimizationProcessingQueue s @ [depOptimizationProcessing s]))"
     "(\<not> enqueuedRerun s \<longrightarrow> out = Finished None \<and>
            (\<exists>h ms t f. handle s' = Some h \<and>
               find (\<lambda>x. fst x = h) (timers s') = Some (h, ms, RerunTimer) \<and>
               fire_timer env h s' = (t, Some f) \<and> fr_metadata f = cur_metadata s \<and>
               depOptimizationProcessingQueue t =
                 depOptimizationProcessingQueue s @ [depOptimizationProcessing s]))"
    by simp_all
  from later have later': "\<forall>cf s2 s3. steps env s' s2 \<longrightarrow> commitProcessing cf s2 = Inr s3 \<longrightarrow>
            set (depOptimizationProcessingQueue s) \<subseteq> fulfilled s3" by blast
  show ?thesis
    by (intro conjI eff f1 q md inf rel fu' later')
qed


lemmas demo_start_simps =
  demo_started_def demo_idle_def demo_running_def demo_info_def demo_env_def demo_frame_def
  empty_state_def runOptimizer_start_def clear_handle_def emit_def
  newDepOptimizationProcessing_def Let_def

lemma demo_started_fields:
  "runOptimizer_start demo_env demo_idle = (demo_started, Some demo_frame)"
  "known_dep demo_started ''axios'' = None" "next_ref demo_started = 6"
  "timers_allocated demo_idle" "cur_metadata demo_idle < next_ref demo_idle"
  by (simp_all add: demo_start_simps known_dep_def timers_allocated_def)

lemma demo_register:
  "registerMissingImport demo_env ''axios'' ''/src/axios'' None demo_started =
     Inr (6, demo_discovering)"
  using registerMissingImport_new [OF demo_started_fields(2), of demo_env "''/src/axios''" None]
  by (auto simp: demo_discovering_def demo_started_fields(3))

lemma demo_discovering_fields:
  "newDepsDiscovered demo_discovering" "\<not> enqueuedRerun demo_discovering"
  "fulfilled demo_discovering = {}" "cur_metadata demo_discovering = 1"
  "alloc_metadata demo_changed demo_discovering =
     (10, snd (alloc_metadata demo_changed demo_discovering))"
  "needsReload (snd (alloc_metadata demo_changed demo_discovering)) 1 10 = Inr True"
  by (simp_all add: demo_discovering_def registerMissingImport_def demo_start_simps
      alloc_info_def addOptimizedDepInfo_def scan_def debouncedProcessing_def setTimeout_def
      debounceMs_def alloc_metadata_def demo_changed_def needsReload_def
      needsInteropMismatch_def interop_mismatch_def)

theorem cancel_on_new_deps_witness:
  "timers_allocated demo_idle \<and> cur_metadata demo_idle < next_ref demo_idle \<and>
   runOptimizer_start demo_env demo_idle = (demo_started, Some demo_frame) \<and>
   bundling demo_env demo_started demo_discovering \<and>
   newDepsDiscovered demo_discovering \<and> \<not> enqueuedRerun demo_discovering \<and>
   needsReload (snd (alloc_metadata demo_changed demo_discovering)) 1 10 = Inr True \<and>
   snd (runOptimizer_bundled demo_env demo_frame (Inr demo_changed) demo_discovering) =
     Finished None \<and>
   fulfilled (fst (runOptimizer_bundled demo_env demo_frame (Inr demo_changed)
     demo_discovering)) = {} \<and>
   cur_metadata (fst (runOptimizer_bundled demo_env demo_frame (Inr demo_changed)
     demo_discovering)) = 1"
proof -
  note d = demo_started_fields
  note e = demo_discovering_fields
  have mid: "bundling demo_env demo_started demo_discovering"
    unfolding bundling_def
    by (rule r_into_rtranclp) (rule il_register [OF demo_register])
  have r: "needsReload (snd (alloc_metadata demo_changed demo_discovering))
      (fr_metadata demo_frame) 10 = Inr True"
    using e(6) by (simp add: demo_frame_def)
  from cancel_on_new_deps [OF d(1) d(4) d(5) mid e(5) r e(1) surjective_pairing] e(2,3,4)
  have "snd (runOptimizer_bundled demo_env demo_frame (Inr demo_changed) demo_discovering) =
     Finished None"
    "fulfilled (fst (runOptimizer_bundled demo_env demo_frame (Inr demo_changed)
     demo_discovering)) = {}"
    "cur_metadata (fst (runOptimizer_bundled demo_env demo_frame (Inr demo_changed)
     demo_discovering)) = 1"
    by simp_all
  with d e mid show ?thesis by simp
qed

section \<open>A rerun that changes nothing\<close>

lemma fileHash_changed_False_iff:
  "fileHash_changed s md nd ks = Inr False \<longleftrightarrow>
     (\<forall>dep \<in> set ks. \<exists>m n. map_of (optimized (metas s md)) dep = Some m \<and>
        map_of (optimized (metas s nd)) dep = Some n \<and>
        fileHash (infos s n) = fileHash (infos s m))"
  by (induction ks) (auto split: option.splits)





section \<open>The loops of the commit on the store\<close>

lemma set_browserHash_store:
  "metas (set_browserHash r h s) = metas s"
  "infos (set_browserHash r h s) = (infos s)(r := (infos s r)\<lparr>browserHash := h\<rparr>)"
  by (simp_all add: set_browserHash_def)

lemma optimized_or_discovered_cong:
  "metas s' = metas s \<Longrightarrow> optimized_or_discovered s' md dep = optimized_or_discovered s md dep"
  by (simp add: optimized_or_discovered_def cong: option.case_cong)

lemma map_of_snd_in: "map_of al k = Some v \<Longrightarrow> v \<in> snd ` set al"
  by (auto dest!: map_of_SomeD intro: rev_image_eqI)

lemma keep_chunks_frame:
  "metas (keep_chunks_browserHash md nd ks s) = metas s \<and>
   (\<forall>r. r \<notin> snd ` set (chunks (metas s nd)) \<longrightarrow>
        infos (keep_chunks_browserHash md nd ks s) r = infos s r)"
proof (induction ks arbitrary: s)
  case Nil
  show ?case by simp
next
  case (Cons k ks)
  show ?case
  proof (cases "map_of (chunks (metas s nd)) k")
    case None
    with Cons.IH [of s] show ?thesis by simp
  next
    case (Some c)
    let ?t = "set_browserHash c (Some (md_browserHash (metas s md))) s"
    from Some have c: "c \<in> snd ` set (chunks (metas s nd))" by (rule map_of_snd_in)
    from Cons.IH [of ?t] Some c show ?thesis
      by (auto simp: set_browserHash_store)
  qed
qed

lemma keep_chunks_hash:
  "browserHash (infos (keep_chunks_browserHash md nd ks s) r) = browserHash (infos s r) \<or>
   browserHash (infos (keep_chunks_browserHash md nd ks s) r) =
     Some (md_browserHash (metas s md))"
proof (induction ks arbitrary: s)
  case Nil
  show ?case by simp
next
  case (Cons k ks)
  show ?case
  proof (cases "map_of (chunks (metas s nd)) k")
    case None
    with Cons.IH [of s] show ?thesis by simp
  next
    case (Some c)
    let ?t = "set_browserHash c (Some (md_browserHash (metas s md))) s"
    from Cons.IH [of ?t] Some show ?thesis
      by (auto simp: set_browserHash_store split: if_splits)
  qed
qed

lemma keep_chunks_values:
  "dep \<in> set ks \<Longrightarrow> map_of (chunks (metas s nd)) dep = Some c \<Longrightarrow>
   browserHash (infos (keep_chunks_browserHash md nd ks s) c) =
     Some (md_browserHash (metas s md))"
proof (induction ks arbitrary: s)
  case Nil
  then show ?case by simp
next
  case (Cons k ks)
  show ?case
  proof (cases "map_of (chunks (metas s nd)) k")
    case None
    with Cons.prems have "dep \<in> set ks" by auto
    from Cons.IH [OF this Cons.prems(2)] None show ?thesis by simp
  next
    case (Some ck)
    let ?t = "set_browserHash ck (Some (md_browserHash (metas s md))) s"
    have m: "metas ?t = metas s" by (simp add: set_browserHash_store)
    show ?thesis
    proof (cases "dep \<in> set ks")
      case True
      from Cons.IH [OF True, of ?t] Cons.prems(2) Some show ?thesis by (simp add: m)
    next
      case False
      with Cons.prems Some have "c = ck" by simp
      then have "browserHash (infos ?t c) = Some (md_browserHash (metas s md))"
        by (simp add: set_browserHash_store)
      with keep_chunks_hash [of md nd ks ?t c] Some show ?thesis by (auto simp: m)
    qed
  qed
qed

lemma keep_optimized_metas:
  "keep_optimized_browserHash md nd ks s = Inr s' \<Longrightarrow> metas s' = metas s"
proof (induction ks arbitrary: s)
  case Nil
  then show ?case by simp
next
  case (Cons k ks)
  then show ?case
    by (auto split: option.splits dest!: Cons.IH simp: set_browserHash_store)
qed

lemma keep_optimized_Inl:
  "keep_optimized_browserHash md nd ks s = Inl (e, s') \<Longrightarrow> e = TypeError \<and> metas s' = metas s"
proof (induction ks arbitrary: s)
  case Nil
  then show ?case by simp
next
  case (Cons k ks)
  then show ?case
    by (auto split: option.splits dest!: Cons.IH simp: set_browserHash_store)
qed

lemma keep_optimized_total:
  "(\<exists>s'. keep_optimized_browserHash md nd ks s = Inr s') \<longleftrightarrow>
     (\<forall>dep \<in> set ks. map_of (optimized (metas s nd)) dep \<noteq> None \<and>
                      optimized_or_discovered s md dep \<noteq> None)"
proof (induction ks arbitrary: s)
  case Nil
  show ?case by simp
next
  case (Cons k ks)
  show ?case
  proof (cases "map_of (optimized (metas s nd)) k")
    case None
    then show ?thesis by simp
  next
    case n: (Some n)
    show ?thesis
    proof (cases "optimized_or_discovered s md k")
      case None
      with n show ?thesis by simp
    next
      case (Some old)
      let ?t = "set_browserHash n (browserHash (infos s old)) s"
      have m: "metas ?t = metas s" by (simp add: set_browserHash_store)
      from Cons.IH [of ?t] n Some show ?thesis
        by (simp add: m optimized_or_discovered_cong [OF m])
    qed
  qed
qed

lemma distinct_snd_key:
  "distinct (map snd al) \<Longrightarrow> map_of al k = Some v \<Longrightarrow> map_of al k' = Some v \<Longrightarrow> k = k'"
proof (induction al)
  case Nil
  then show ?case by simp
next
  case (Cons p al)
  then show ?case
    by (cases p) (auto split: if_splits dest: map_of_snd_in)
qed

lemma keep_optimized_frame:
  "keep_optimized_browserHash md nd ks s = Inr s' \<Longrightarrow>
     (\<forall>dep \<in> set ks. map_of (optimized (metas s nd)) dep \<noteq> Some r) \<Longrightarrow>
     infos s' r = infos s r"
proof (induction ks arbitrary: s)
  case Nil
  then show ?case by simp
next
  case (Cons k ks)
  from Cons.prems(1) obtain n old where n: "map_of (optimized (metas s nd)) k = Some n"
    and old: "optimized_or_discovered s md k = Some old"
    and rest: "keep_optimized_browserHash md nd ks
                 (set_browserHash n (browserHash (infos s old)) s) = Inr s'"
    by (auto split: option.splits)
  let ?t = "set_browserHash n (browserHash (infos s old)) s"
  have m: "metas ?t = metas s" by (simp add: set_browserHash_store)
  from Cons.prems(2) n have "r \<noteq> n" by auto
  moreover from Cons.prems(2) have "\<forall>dep \<in> set ks. map_of (optimized (metas ?t nd)) dep \<noteq> Some r"
    by (simp add: m)
  from Cons.IH [OF rest this] have "infos s' r = infos ?t r" .
  ultimately show ?case by (simp add: set_browserHash_store)
qed

lemma keep_optimized_values:
  assumes "keep_optimized_browserHash md nd ks s = Inr s'"
    and "distinct (map snd (optimized (metas s nd)))"
    and "snd ` set (optimized (metas s nd)) \<inter>
         (snd ` set (optimized (metas s md)) \<union> snd ` set (discovered (metas s md))) = {}"
    and "dep \<in> set ks"
    and "map_of (optimized (metas s nd)) dep = Some n"
    and "optimized_or_discovered s md dep = Some old"
  shows "browserHash (infos s' n) = browserHash (infos s old)"
  using assms
proof (induction ks arbitrary: s)
  case Nil
  then show ?case by simp
next
  case (Cons k ks)
  from Cons.prems(1) obtain nk oldk where nk: "map_of (optimized (metas s nd)) k = Some nk"
    and oldk: "optimized_or_discovered s md k = Some oldk"
    and rest: "keep_optimized_browserHash md nd ks
                 (set_browserHash nk (browserHash (infos s oldk)) s) = Inr s'"
    by (auto split: option.splits)
  let ?t = "set_browserHash nk (browserHash (infos s oldk)) s"
  have m: "metas ?t = metas s" by (simp add: set_browserHash_store)
  have oldref: "old \<in> snd ` set (optimized (metas s md)) \<union> snd ` set (discovered (metas s md))"
    using Cons.prems(6)
    by (auto simp: optimized_or_discovered_def split: option.splits dest: map_of_snd_in)
  have nkref: "nk \<in> snd ` set (optimized (metas s nd))"
    using nk by (rule map_of_snd_in)
  from oldref nkref Cons.prems(3) have ne: "old \<noteq> nk" by auto
  show ?case
  proof (cases "dep \<in> set ks")
    case True
    have "browserHash (infos s' n) = browserHash (infos ?t old)"
      using rest Cons.prems(2,3,5,6) True
      by (intro Cons.IH) (simp_all add: m optimized_or_discovered_cong [OF m])
    with ne show ?thesis by (simp add: set_browserHash_store)
  next
    case False
    with Cons.prems(4) have dk: "dep = k" by simp
    with nk Cons.prems(5) have nn: "n = nk" by simp
    with oldk Cons.prems(6) dk have oo: "old = oldk" by simp
    have "\<forall>d \<in> set ks. map_of (optimized (metas ?t nd)) d \<noteq> Some nk"
    proof
      fix d assume d: "d \<in> set ks"
      show "map_of (optimized (metas ?t nd)) d \<noteq> Some nk"
      proof
        assume "map_of (optimized (metas ?t nd)) d = Some nk"
        then have "map_of (optimized (metas s nd)) d = Some nk" by (simp add: m)
        from distinct_snd_key [OF Cons.prems(2) this nk] d False dk show False by simp
      qed
    qed
    from keep_optimized_frame [OF rest this] nn oo show ?thesis
      by (simp add: set_browserHash_store)
  qed
qed

lemma commit_to_discovered_frame:
  "metas (commit_to_discovered md nd ks s) = metas s \<and>
   ((\<forall>k \<in> set ks. map_of (optimized (metas s nd)) k = None \<or>
                    map_of (discovered (metas s md)) k \<noteq> Some r) \<longrightarrow>
      infos (commit_to_discovered md nd ks s) r = infos s r)"
proof (induction ks arbitrary: s)
  case Nil
  show ?case by simp
next
  case (Cons k ks)
  show ?case
  proof (cases "map_of (discovered (metas s md)) k")
    case None
    with Cons.IH [of s] show ?thesis by simp
  next
    case d: (Some d)
    show ?thesis
    proof (cases "map_of (optimized (metas s nd)) k")
      case None
      with d Cons.IH [of s] show ?thesis by simp
    next
      case (Some n)
      let ?t = "s\<lparr>infos := (infos s)(d := (infos s d)\<lparr>
                      needsInterop := needsInterop (infos s n),
                      browserHash := browserHash (infos s n),
                      fileHash := fileHash (infos s n),
                      processing := None\<rparr>)\<rparr>"
      have m: "metas ?t = metas s" by simp
      from Cons.IH [of ?t] d Some show ?thesis
        by (auto simp: m)
    qed
  qed
qed

lemma addOptimizedDepInfo_Discovered:
  assumes "addOptimizedDepInfo nd Discovered d s = Inr s'"
  shows "s' = s\<lparr>metas := (metas s)(nd := (metas s nd)\<lparr>discovered :=
                 AList.update (dep_id (infos s d)) d (discovered (metas s nd))\<rparr>)\<rparr>"
  using assms by (auto simp: addOptimizedDepInfo_def Let_def split: if_splits)

lemma keep_discovered_facts:
  assumes "keep_discovered md nd ks s = Inr s1"
    and "nd \<noteq> md"
    and "discovered_keyed s md"
  shows "infos s1 = infos s \<and> (\<forall>x. x \<noteq> nd \<longrightarrow> metas s1 x = metas s x) \<and>
         optimized (metas s1 nd) = optimized (metas s nd) \<and>
         chunks (metas s1 nd) = chunks (metas s nd) \<and>
         hash (metas s1 nd) = hash (metas s nd) \<and>
         md_browserHash (metas s1 nd) = md_browserHash (metas s nd) \<and>
         (\<forall>i r. map_of (discovered (metas s md)) i = Some r \<longrightarrow>
                map_of (optimized (metas s nd)) i = None \<longrightarrow>
                (i \<in> set ks \<or> map_of (discovered (metas s nd)) i = Some r) \<longrightarrow>
                map_of (discovered (metas s1 nd)) i = Some r)"
  using assms
proof (induction ks arbitrary: s)
  case Nil
  then show ?case by simp
next
  case (Cons k ks)
  show ?case
  proof (cases "map_of (optimized (metas s nd)) k")
    case (Some n)
    with Cons.prems have "keep_discovered md nd ks s = Inr s1" by simp
    from Cons.IH [OF this Cons.prems(2,3)] Some show ?thesis by auto
  next
    case None
    with Cons.prems(1) obtain d s' where d: "map_of (discovered (metas s md)) k = Some d"
      and add: "addOptimizedDepInfo nd Discovered d s = Inr s'"
      and rest: "keep_discovered md nd ks s' = Inr s1"
      by (auto split: option.splits sum.splits)
    from d have "(k, d) \<in> set (discovered (metas s md))" by (rule map_of_SomeD)
    with Cons.prems(3) have key: "dep_id (infos s d) = k"
      by (auto simp: discovered_keyed_def)
    from addOptimizedDepInfo_Discovered [OF add] key
    have s': "s' = s\<lparr>metas := (metas s)(nd := (metas s nd)\<lparr>discovered :=
                 AList.update k d (discovered (metas s nd))\<rparr>)\<rparr>" by simp
    have st: "infos s' = infos s" "metas s' md = metas s md"
      "optimized (metas s' nd) = optimized (metas s nd)"
      "chunks (metas s' nd) = chunks (metas s nd)"
      "hash (metas s' nd) = hash (metas s nd)"
      "md_browserHash (metas s' nd) = md_browserHash (metas s nd)"
      "discovered (metas s' nd) = AList.update k d (discovered (metas s nd))"
      "\<And>x. x \<noteq> nd \<Longrightarrow> metas s' x = metas s x"
      using Cons.prems(2) by (simp_all add: s')
    have keyed: "discovered_keyed s' md"
      using Cons.prems(3) by (simp add: discovered_keyed_def st)
    note ih = Cons.IH [OF rest Cons.prems(2) keyed]
    have "map_of (discovered (metas s1 nd)) i = Some r"
      if a: "map_of (discovered (metas s md)) i = Some r"
        and b: "map_of (optimized (metas s nd)) i = None"
        and c: "i \<in> set (k # ks) \<or> map_of (discovered (metas s nd)) i = Some r" for i r
    proof -
      have "i \<in> set ks \<or> map_of (discovered (metas s' nd)) i = Some r"
      proof (cases "i = k")
        case True
        with a d show ?thesis by (simp add: st update_conv')
      next
        case False
        with c show ?thesis by (auto simp: st update_conv')
      qed
      with ih a b show ?thesis by (auto simp: st)
    qed
    with ih show ?thesis by (simp add: st)
  qed
qed

lemma map_of_key_in: "map_of al k = Some v \<Longrightarrow> k \<in> set (map fst al)"
  by (auto dest!: map_of_SomeD intro: rev_image_eqI)

lemma needsReload_False_covers:
  assumes "needsReload s md nd = Inr False"
    and "map_of (optimized (metas s md)) i = Some m"
  shows "\<exists>n. map_of (optimized (metas s nd)) i = Some n"
proof -
  from assms(1) have "fileHash_changed s md nd (map fst (optimized (metas s md))) = Inr False"
    by (simp add: needsReload_def split: if_splits)
  with map_of_key_in [OF assms(2)] show ?thesis
    unfolding fileHash_changed_False_iff by blast
qed

lemma commitProcessing_Inr_store:
  assumes "commitProcessing fr s = Inr s'"
  shows "\<exists>s1 s2. keep_discovered (fr_metadata fr) (fr_newData fr)
                   (map fst (discovered (metas s (fr_metadata fr)))) s = Inr s1 \<and>
           keep_browserHash fr s1 = Inr s2 \<and>
           infos s' = infos (commit_to_discovered (fr_metadata fr) (fr_newData fr)
                              (map fst (optimized (metas s2 (fr_newData fr)))) s2) \<and>
           metas s' = metas (commit_to_discovered (fr_metadata fr) (fr_newData fr)
                              (map fst (optimized (metas s2 (fr_newData fr)))) s2) \<and>
           cur_metadata s' = fr_newData fr"
proof -
  from assms obtain s1 s2 where
    1: "keep_discovered (fr_metadata fr) (fr_newData fr)
          (map fst (discovered (metas s (fr_metadata fr)))) s = Inr s1"
    and 2: "keep_browserHash fr s1 = Inr s2"
    by (auto simp: commitProcessing_def Let_def split: sum.splits)
  let ?s3 = "commit_to_discovered (fr_metadata fr) (fr_newData fr)
               (map fst (optimized (metas s2 (fr_newData fr)))) s2"
  let ?l = "if fr_isRerun fr
            then newDepsToLog ?s3 @
                 filter (\<lambda>dep. map_of (optimized (metas ?s3 (fr_metadata fr))) dep = None)
                   (map fst (optimized (metas ?s3 (fr_newData fr))))
            else newDepsToLog ?s3"
  from assms 1 2 have "s' = ?s3\<lparr>newDepsToLog := ?l, cur_metadata := fr_newData fr,
                  fulfilled := fulfilled ?s3 \<union> set (depOptimizationProcessingQueue ?s3),
                  depOptimizationProcessingQueue := []\<rparr>"
    by (cases "fr_isRerun fr")
       (simp_all add: commitProcessing_def Let_def resolveEnqueuedProcessingPromises_def)
  then have "infos s' = infos ?s3" "metas s' = metas ?s3" "cur_metadata s' = fr_newData fr"
    by simp_all
  with 1 2 show ?thesis by blast
qed

text \<open>The allocation of the bundler's metadata makes it fresh for a snapshot whose
  objects are allocated.\<close>

lemma alloc_metadata_optimized_bound:
  assumes "alloc_metadata b s = (nd, s1)"
  shows "next_ref s + length (bm_optimized b) \<le> nd"
proof -
  obtain mo so where o: "alloc_infos (bm_optimized b) s = (mo, so)"
    by (cases "alloc_infos (bm_optimized b) s")
  obtain mc sc where c: "alloc_infos (bm_chunks b) so = (mc, sc)"
    by (cases "alloc_infos (bm_chunks b) so")
  obtain md sd where d: "alloc_infos (bm_discovered b) sc = (md, sd)"
    by (cases "alloc_infos (bm_discovered b) sc")
  from assms o c d have "nd = next_ref sd"
    by (auto simp: alloc_metadata_def Let_def)
  with alloc_infos_facts [OF o] alloc_infos_facts [OF c] alloc_infos_facts [OF d]
  show ?thesis by simp
qed

lemma alloc_metadata_chunks_refs:
  assumes "alloc_metadata b s = (nd, s1)"
  shows "map snd (chunks (metas s1 nd)) =
     [next_ref s + length (bm_optimized b) ..<
      next_ref s + length (bm_optimized b) + length (bm_chunks b)]"
proof -
  obtain mo so where o: "alloc_infos (bm_optimized b) s = (mo, so)"
    by (cases "alloc_infos (bm_optimized b) s")
  obtain mc sc where c: "alloc_infos (bm_chunks b) so = (mc, sc)"
    by (cases "alloc_infos (bm_chunks b) so")
  obtain md sd where d: "alloc_infos (bm_discovered b) sc = (md, sd)"
    by (cases "alloc_infos (bm_discovered b) sc")
  from assms o c d have "chunks (metas s1 nd) = mc"
    by (auto simp: alloc_metadata_def Let_def)
  with alloc_infos_facts [OF o] alloc_infos_facts [OF c]
  show ?thesis by simp
qed

lemma alloc_metadata_fresh:
  assumes a: "alloc_metadata b s = (nd, s1)"
    and md: "md < next_ref s"
    and old: "\<forall>r \<in> snd ` set (optimized (metas s md)) \<union> snd ` set (discovered (metas s md)).
                r < next_ref s"
  shows "fresh_result s1 md nd"
proof -
  note f = alloc_metadata_facts [OF a]
  from f(1) md have ne: "nd \<noteq> md" by simp
  with f(4) have m: "metas s1 md = metas s md" by simp
  have d: "distinct (map snd (optimized (metas s1 nd)))"
    by (simp add: f(8))
  have "set (map snd (optimized (metas s1 nd))) \<inter> set (map snd (chunks (metas s1 nd))) = {}"
    unfolding f(8) alloc_metadata_chunks_refs [OF a] by auto
  then have oc: "snd ` set (optimized (metas s1 nd)) \<inter> snd ` set (chunks (metas s1 nd)) = {}"
    by simp
  have "set (map snd (optimized (metas s1 nd))) \<subseteq> {next_ref s ..< nd}"
    using alloc_metadata_optimized_bound [OF a] by (auto simp: f(8))
  then have o: "snd ` set (optimized (metas s1 nd)) \<subseteq> {next_ref s ..< nd}" by simp
  from f(11) have c: "snd ` set (chunks (metas s1 nd)) \<subseteq> {next_ref s ..< nd}" by simp
  from old have "snd ` set (optimized (metas s md)) \<union> snd ` set (discovered (metas s md))
      \<subseteq> {..< next_ref s}" by auto
  with o c have "(snd ` set (optimized (metas s1 nd)) \<union> snd ` set (chunks (metas s1 nd))) \<inter>
     (snd ` set (optimized (metas s md)) \<union> snd ` set (discovered (metas s md))) = {}"
    by fastforce
  with ne d oc show ?thesis by (simp add: fresh_result_def m)
qed

lemma needsReload_cong:
  assumes "infos s' = infos s" and "metas s' = metas s"
  shows "needsReload s' md nd = needsReload s md nd"
proof -
  have f: "fileHash_changed s' md nd ks = fileHash_changed s md nd ks" for ks
    by (induction ks) (simp_all add: assms split: option.splits)
  have "interop_mismatch s' md nd = interop_mismatch s md nd"
    by (intro ext) (simp add: interop_mismatch_def assms cong: option.case_cong)
  then have "needsInteropMismatch s' md nd = needsInteropMismatch s md nd"
    by (simp add: needsInteropMismatch_def assms)
  with f show ?thesis by (simp add: needsReload_def assms)
qed

text \<open>A rerun that leaves the bundler to commit without reload, on a store whose
  snapshot is allocated, has a frame that meets the conditions of the next section.\<close>

lemma bundled_commit_frame:
  assumes run: "runOptimizer_bundled env fr (Inr b) s = (s', AwaitCommit cf)"
    and nr: "\<not> fr_needsReload cf"
    and md: "fr_metadata fr < next_ref s"
    and old: "\<forall>r \<in> snd ` set (optimized (metas s (fr_metadata fr))) \<union>
                   snd ` set (discovered (metas s (fr_metadata fr))). r < next_ref s"
  shows "fr_metadata cf = fr_metadata fr \<and>
         needsReload s' (fr_metadata cf) (fr_newData cf) = Inr False \<and>
         fresh_result s' (fr_metadata cf) (fr_newData cf)"
proof -
  obtain nd s1 where a: "alloc_metadata b s = (nd, s1)" by (cases "alloc_metadata b s")
  from run a nr have n: "needsReload s1 (fr_metadata fr) nd = Inr False"
    and s': "s' = emit (BundlerCommit nd) s1"
    and cf: "fr_metadata cf = fr_metadata fr" "fr_newData cf = nd"
    by (auto simp: runOptimizer_bundled_def Let_def split_def
        split: sum.splits if_splits)
  have st: "infos s' = infos s1" "metas s' = metas s1" by (simp_all add: s' emit_def)
  from alloc_metadata_fresh [OF a md old] have "fresh_result s' (fr_metadata fr) nd"
    by (simp add: fresh_result_def st)
  with n needsReload_cong [OF st] cf show ?thesis by simp
qed

section \<open>A commit without reload keeps the browser hashes\<close>

lemma demo_bundled_eq:
  "demo_bundled = emit (BundlerCommit 9) (snd (alloc_metadata demo_unchanged demo_chunked))"
  by (simp add: demo_bundled_def runOptimizer_bundled_def alloc_metadata_def alloc_info_def
      demo_unchanged_def demo_chunked_def demo_running_def demo_info_def demo_frame_def
      empty_state_def needsReload_def needsInteropMismatch_def interop_mismatch_def Let_def)

lemmas demo_simps =
  demo_bundled_eq emit_def alloc_metadata_def alloc_info_def demo_unchanged_def
  demo_chunked_def demo_running_def demo_info_def demo_commit_def empty_state_def Let_def

lemma demo_commit_succeeds:
  "\<not> isl (commitProcessing demo_commit demo_bundled)"
  by (simp add: demo_simps commitProcessing_def keep_browserHash_def addOptimizedDepInfo_def
      set_browserHash_def optimized_or_discovered_def resolveEnqueuedProcessingPromises_def)

lemma demo_commit_entries:
  "optimized_or_discovered (projr (commitProcessing demo_commit demo_bundled)) 9 ''lodash'' = Some 7"
  by (simp add: demo_simps commitProcessing_def keep_browserHash_def addOptimizedDepInfo_def
      set_browserHash_def optimized_or_discovered_def resolveEnqueuedProcessingPromises_def)

text \<open>
  Claim C2. Take a commit made with \<^verbatim>\<open>needsReload = false\<close>, on the current
  snapshot, whose discovered entries are filed under their own ids, with a metadata
  of the bundler made of objects of its own. Then \<^verbatim>\<open>_metadata\<close> becomes that
  metadata; every id that has an entry (optimized, or else discovered) before and
  after the commit has the same \<^verbatim>\<open>browserHash\<close> in both; every chunk of the new
  snapshot carries the \<^verbatim>\<open>browserHash\<close> of the old snapshot, so that, when the chunks
  of the old snapshot carried it too, every chunk id present before and after has
  the same \<^verbatim>\<open>browserHash\<close> in both; and the \<^verbatim>\<open>browserHash\<close> of the snapshot is
  unchanged.
\<close>

theorem commit_keeps_browserHash:
  assumes c: "commitProcessing cf s = Inr s'"
    and nr: "\<not> fr_needsReload cf"
    and dec: "needsReload s (fr_metadata cf) (fr_newData cf) = Inr False"
    and cur: "fr_metadata cf = cur_metadata s"
    and key: "discovered_keyed s (fr_metadata cf)"
    and fresh: "fresh_result s (fr_metadata cf) (fr_newData cf)"
  shows "cur_metadata s' = fr_newData cf \<and>
         (\<forall>i r r'. optimized_or_discovered s (cur_metadata s) i = Some r \<longrightarrow>
                   optimized_or_discovered s' (cur_metadata s') i = Some r' \<longrightarrow>
                   browserHash (infos s' r') = browserHash (infos s r)) \<and>
         (\<forall>i c'. map_of (chunks (metas s' (cur_metadata s'))) i = Some c' \<longrightarrow>
                 browserHash (infos s' c') = Some (md_browserHash (metas s (cur_metadata s)))) \<and>
         (chunks_current s (cur_metadata s) \<longrightarrow>
            (\<forall>i c c'. map_of (chunks (metas s (cur_metadata s))) i = Some c \<longrightarrow>
                       map_of (chunks (metas s' (cur_metadata s'))) i = Some c' \<longrightarrow>
                       browserHash (infos s' c') = browserHash (infos s c))) \<and>
         md_browserHash (metas s' (cur_metadata s')) = md_browserHash (metas s (cur_metadata s))"
proof -
  define md where "md = fr_metadata cf"
  define nd where "nd = fr_newData cf"
  from fresh have ne: "nd \<noteq> md"
    and dist: "distinct (map snd (optimized (metas s nd)))"
    and oc: "snd ` set (optimized (metas s nd)) \<inter> snd ` set (chunks (metas s nd)) = {}"
    and disj: "(snd ` set (optimized (metas s nd)) \<union> snd ` set (chunks (metas s nd))) \<inter>
       (snd ` set (optimized (metas s md)) \<union> snd ` set (discovered (metas s md))) = {}"
    by (simp_all add: fresh_result_def md_def nd_def)
  from commitProcessing_Inr_store [OF c] obtain s1 s2 where
    kd: "keep_discovered md nd (map fst (discovered (metas s md))) s = Inr s1"
    and kb: "keep_browserHash cf s1 = Inr s2"
    and s'0: "infos s' = infos (commit_to_discovered md nd
                              (map fst (optimized (metas s2 nd))) s2)"
      "metas s' = metas (commit_to_discovered md nd
                              (map fst (optimized (metas s2 nd))) s2)"
      "cur_metadata s' = nd"
    unfolding md_def nd_def by blast
  define s3 where "s3 = commit_to_discovered md nd (map fst (optimized (metas s2 nd))) s2"
  from s'0 have s': "infos s' = infos s3" "metas s' = metas s3" "cur_metadata s' = nd"
    unfolding s3_def by simp_all
  note f1 = keep_discovered_facts [OF kd ne key [folded md_def]]
  define s1a where "s1a = s1\<lparr>metas := (metas s1)(nd :=
                    (metas s1 nd)\<lparr>md_browserHash := md_browserHash (metas s1 md)\<rparr>)\<rparr>"
  define s1b where "s1b = keep_chunks_browserHash md nd (map fst (chunks (metas s1a nd))) s1a"
  from kb nr have ko: "keep_optimized_browserHash md nd (map fst (optimized (metas s1b nd))) s1b
      = Inr s2"
    by (simp add: keep_browserHash_def Let_def md_def nd_def s1a_def s1b_def)
  have a: "infos s1a = infos s" "metas s1a md = metas s md"
    "optimized (metas s1a nd) = optimized (metas s nd)"
    "chunks (metas s1a nd) = chunks (metas s nd)"
    "discovered (metas s1a nd) = discovered (metas s1 nd)"
    "md_browserHash (metas s1a nd) = md_browserHash (metas s md)"
    using f1 ne by (simp_all add: s1a_def)
  note f2 = keep_chunks_frame [of md nd "map fst (chunks (metas s1a nd))" s1a, folded s1b_def]
  have b: "metas s1b = metas s1a"
    "\<And>r. r \<notin> snd ` set (chunks (metas s nd)) \<Longrightarrow> infos s1b r = infos s r"
    using f2 by (simp_all add: a)
  have m2: "metas s2 = metas s1b" by (rule keep_optimized_metas [OF ko])
  have m3: "metas s3 = metas s2"
    using commit_to_discovered_frame [of md nd "map fst (optimized (metas s2 nd))" s2]
    by (simp add: s3_def)
  have maps: "optimized (metas s' nd) = optimized (metas s nd)"
    "discovered (metas s' nd) = discovered (metas s1 nd)"
    "md_browserHash (metas s' nd) = md_browserHash (metas s md)"
    by (simp_all add: s' m3 m2 b a)
  have old_not_new: "r \<notin> snd ` set (optimized (metas s nd))"
      "r \<notin> snd ` set (chunks (metas s nd))"
    if "r \<in> snd ` set (optimized (metas s md)) \<union> snd ` set (discovered (metas s md))" for r
    using that disj by auto
  have ood_old: "r \<in> snd ` set (optimized (metas s md)) \<union> snd ` set (discovered (metas s md))"
    if "optimized_or_discovered s md i = Some r" for i r
    using that
    by (auto simp: optimized_or_discovered_def split: option.splits dest: map_of_snd_in)
  have main: "browserHash (infos s' r') = browserHash (infos s r)"
    if o: "optimized_or_discovered s md i = Some r"
      and o': "optimized_or_discovered s' nd i = Some r'" for i r r'
  proof (cases "map_of (optimized (metas s nd)) i")
    case (Some n)
    with o' have r': "r' = n" by (simp add: optimized_or_discovered_def maps)
    have nref: "n \<in> snd ` set (optimized (metas s nd))" using Some by (rule map_of_snd_in)
    have oo: "optimized_or_discovered s1b md i = Some r"
      using o optimized_or_discovered_cong [of s1b s1a md i]
        by (simp add: b optimized_or_discovered_def a cong: option.case_cong)
    have "browserHash (infos s2 n) = browserHash (infos s1b r)"
    proof (rule keep_optimized_values [OF ko _ _ _ _ oo])
      show "distinct (map snd (optimized (metas s1b nd)))" using dist by (simp add: b a)
      show "snd ` set (optimized (metas s1b nd)) \<inter>
         (snd ` set (optimized (metas s1b md)) \<union> snd ` set (discovered (metas s1b md))) = {}"
        using disj by (auto simp: b a)
      show "i \<in> set (map fst (optimized (metas s1b nd)))"
        using map_of_key_in [OF Some] by (simp add: b a)
      show "map_of (optimized (metas s1b nd)) i = Some n" using Some by (simp add: b a)
    qed
    moreover have "infos s1b r = infos s r"
      using old_not_new(2) [OF ood_old [OF o]] by (rule b(2))
    moreover have "infos s3 n = infos s2 n"
    proof -
      have "\<forall>k \<in> set (map fst (optimized (metas s2 nd))).
          map_of (optimized (metas s2 nd)) k = None \<or> map_of (discovered (metas s2 md)) k \<noteq> Some n"
      proof (intro ballI disjI2 notI)
        fix k assume "map_of (discovered (metas s2 md)) k = Some n"
        then have "map_of (discovered (metas s md)) k = Some n" by (simp add: m2 b a)
        then have "n \<in> snd ` set (discovered (metas s md))" by (rule map_of_snd_in)
        with old_not_new(1) [of n] nref show False by simp
      qed
      with commit_to_discovered_frame [of md nd "map fst (optimized (metas s2 nd))" s2 n]
      show ?thesis by (simp add: s3_def)
    qed
    ultimately show ?thesis by (simp add: r' s')
  next
    case None
    have om: "map_of (optimized (metas s md)) i = None"
    proof (cases "map_of (optimized (metas s md)) i")
      case (Some m)
      from needsReload_False_covers [OF dec [folded md_def nd_def] Some] None show ?thesis by simp
    qed simp
    with o have d: "map_of (discovered (metas s md)) i = Some r"
      by (simp add: optimized_or_discovered_def)
    from f1 d None map_of_key_in [OF d] have "map_of (discovered (metas s1 nd)) i = Some r"
      by blast
    with o' None have r': "r' = r" by (simp add: optimized_or_discovered_def maps)
    from d have "(i, r) \<in> set (discovered (metas s md))" by (rule map_of_SomeD)
    with key have idr: "dep_id (infos s r) = i" by (auto simp: discovered_keyed_def md_def)
    have rold: "r \<in> snd ` set (optimized (metas s md)) \<union> snd ` set (discovered (metas s md))"
      using ood_old [OF o] .
    have "infos s3 r = infos s2 r"
    proof -
      have "\<forall>k \<in> set (map fst (optimized (metas s2 nd))).
          map_of (optimized (metas s2 nd)) k = None \<or> map_of (discovered (metas s2 md)) k \<noteq> Some r"
      proof (intro ballI disjI2 notI)
        fix k assume k: "k \<in> set (map fst (optimized (metas s2 nd)))"
          and "map_of (discovered (metas s2 md)) k = Some r"
        then have "map_of (discovered (metas s md)) k = Some r" by (simp add: m2 b a)
        then have "(k, r) \<in> set (discovered (metas s md))" by (rule map_of_SomeD)
        with key have "dep_id (infos s r) = k" by (auto simp: discovered_keyed_def md_def)
        with idr have "k = i" by simp
        with k have "i \<in> fst ` set (optimized (metas s nd))" by (simp add: m2 b a)
        with None show False by (simp add: map_of_eq_None_iff)
      qed
      with commit_to_discovered_frame [of md nd "map fst (optimized (metas s2 nd))" s2 r]
      show ?thesis by (simp add: s3_def)
    qed
    moreover have "infos s2 r = infos s1b r"
    proof (rule keep_optimized_frame [OF ko], intro ballI notI)
      fix dep assume "map_of (optimized (metas s1b nd)) dep = Some r"
      then have "r \<in> snd ` set (optimized (metas s nd))"
        by (auto simp: b a dest: map_of_snd_in)
      with old_not_new(1) [OF rold] show False by simp
    qed
    moreover have "infos s1b r = infos s r"
      using old_not_new(2) [OF rold] by (rule b(2))
    ultimately show ?thesis by (simp add: r' s')
  qed
  have chunk: "browserHash (infos s' c') = Some (md_browserHash (metas s md))"
    if c': "map_of (chunks (metas s' nd)) i = Some c'" for i c'
  proof -
    from c' have cs: "map_of (chunks (metas s nd)) i = Some c'"
      by (simp add: s' m3 m2 b a)
    then have cref: "c' \<in> snd ` set (chunks (metas s nd))" by (rule map_of_snd_in)
    from cs have "map_of (chunks (metas s1a nd)) i = Some c'" by (simp add: a)
    from keep_chunks_values [OF map_of_key_in [OF this] this, of md]
    have "browserHash (infos s1b c') = Some (md_browserHash (metas s md))"
      by (simp add: s1b_def a)
    moreover have "infos s2 c' = infos s1b c'"
    proof (rule keep_optimized_frame [OF ko], intro ballI notI)
      fix dep assume "map_of (optimized (metas s1b nd)) dep = Some c'"
      then have "c' \<in> snd ` set (optimized (metas s nd))"
        by (auto simp: b a dest: map_of_snd_in)
      with oc cref show False by auto
    qed
    moreover have "infos s3 c' = infos s2 c'"
    proof -
      have "\<forall>k \<in> set (map fst (optimized (metas s2 nd))).
          map_of (optimized (metas s2 nd)) k = None \<or> map_of (discovered (metas s2 md)) k \<noteq> Some c'"
      proof (intro ballI disjI2 notI)
        fix k assume "map_of (discovered (metas s2 md)) k = Some c'"
        then have "map_of (discovered (metas s md)) k = Some c'" by (simp add: m2 b a)
        then have "c' \<in> snd ` set (discovered (metas s md))" by (rule map_of_snd_in)
        with old_not_new(2) [of c'] cref show False by simp
      qed
      with commit_to_discovered_frame [of md nd "map fst (optimized (metas s2 nd))" s2 c']
      show ?thesis by (simp add: s3_def)
    qed
    ultimately show ?thesis by (simp add: s')
  qed
  have both: "browserHash (infos s' c') = browserHash (infos s c)"
    if cc: "chunks_current s md" and c: "map_of (chunks (metas s md)) i = Some c"
      and c': "map_of (chunks (metas s' nd)) i = Some c'" for i c c'
  proof -
    from c have "(i, c) \<in> set (chunks (metas s md))" by (rule map_of_SomeD)
    with cc have "browserHash (infos s c) = Some (md_browserHash (metas s md))"
      by (auto simp: chunks_current_def)
    with chunk [OF c'] show ?thesis by simp
  qed
  from main chunk both maps(3) s'(3) cur show ?thesis
    unfolding md_def nd_def by simp
qed

lemma demo_commit_chunks:
  "map_of (chunks (metas (projr (commitProcessing demo_commit demo_bundled)) 9)) ''chunk-1'' =
     Some 8 \<and> browserHash (infos demo_bundled 8) = Some ''b1'' \<and>
   browserHash (infos demo_bundled 4) = Some ''b0''"
  by (simp add: demo_simps commitProcessing_def keep_browserHash_def addOptimizedDepInfo_def
      set_browserHash_def optimized_or_discovered_def resolveEnqueuedProcessingPromises_def)

theorem commit_keeps_browserHash_witness:
  "\<not> fr_needsReload demo_commit \<and> needsReload demo_bundled 1 9 = Inr False \<and>
   fresh_result demo_bundled 1 9 \<and> discovered_keyed demo_bundled 1 \<and>
   chunks_current demo_bundled 1 \<and>
   browserHash (infos (projr (commitProcessing demo_commit demo_bundled)) 7) =
     browserHash (infos demo_bundled 3) \<and>
   browserHash (infos (projr (commitProcessing demo_commit demo_bundled)) 8) =
     browserHash (infos demo_bundled 4)"
proof -
  let ?s' = "projr (commitProcessing demo_commit demo_bundled)"
  have c: "commitProcessing demo_commit demo_bundled = Inr ?s'"
    using demo_commit_succeeds by simp
  have nr: "\<not> fr_needsReload demo_commit" by (simp add: demo_commit_def)
  have f: "fr_metadata demo_commit = 1" "fr_newData demo_commit = 9"
    by (simp_all add: demo_commit_def)
  have dec: "needsReload demo_bundled (fr_metadata demo_commit) (fr_newData demo_commit) = Inr False"
    by (simp add: demo_simps needsReload_def needsInteropMismatch_def interop_mismatch_def)
  have cur: "fr_metadata demo_commit = cur_metadata demo_bundled"
    by (simp add: demo_simps)
  have key: "discovered_keyed demo_bundled (fr_metadata demo_commit)"
    by (simp add: demo_simps discovered_keyed_def)
  have fresh: "fresh_result demo_bundled (fr_metadata demo_commit) (fr_newData demo_commit)"
    by (simp add: demo_simps fresh_result_def)
  have o: "optimized_or_discovered demo_bundled (cur_metadata demo_bundled) ''lodash'' = Some 3"
    by (simp add: demo_simps optimized_or_discovered_def)
  have cc: "chunks_current demo_bundled (cur_metadata demo_bundled)"
    by (simp add: demo_simps chunks_current_def)
  have oc: "map_of (chunks (metas demo_bundled (cur_metadata demo_bundled))) ''chunk-1'' = Some 4"
    by (simp add: demo_simps)
  note kept = commit_keeps_browserHash [OF c nr dec cur key fresh]
  from kept f have n: "cur_metadata ?s' = 9" by simp
  from kept have a: "\<forall>i r r'.
       optimized_or_discovered demo_bundled (cur_metadata demo_bundled) i = Some r \<longrightarrow>
       optimized_or_discovered ?s' (cur_metadata ?s') i = Some r' \<longrightarrow>
       browserHash (infos ?s' r') = browserHash (infos demo_bundled r)"
    by blast
  from kept cc have k: "\<forall>i c c'.
       map_of (chunks (metas demo_bundled (cur_metadata demo_bundled))) i = Some c \<longrightarrow>
       map_of (chunks (metas ?s' (cur_metadata ?s'))) i = Some c' \<longrightarrow>
       browserHash (infos ?s' c') = browserHash (infos demo_bundled c)"
    by blast
  from a o n demo_commit_entries
  have "browserHash (infos ?s' 7) = browserHash (infos demo_bundled 3)" by simp
  moreover from k oc n demo_commit_chunks
  have "browserHash (infos ?s' 8) = browserHash (infos demo_bundled 4)" by simp
  ultimately show ?thesis using nr dec fresh key f cc cur by simp
qed

section \<open>The reads of the bundler's metadata\<close>

lemma optimized_or_discovered_maps_cong:
  "optimized (metas s' md) = optimized (metas s md) \<Longrightarrow>
   discovered (metas s' md) = discovered (metas s md) \<Longrightarrow>
   optimized_or_discovered s' md dep = optimized_or_discovered s md dep"
  by (simp add: optimized_or_discovered_def cong: option.case_cong)

lemma keep_browserHash_total:
  assumes "\<not> fr_needsReload cf"
  shows "(\<not> isl (keep_browserHash cf s)) = within_known s (fr_metadata cf) (fr_newData cf)"
proof -
  define md where "md = fr_metadata cf"
  define nd where "nd = fr_newData cf"
  define s1a where "s1a = s\<lparr>metas := (metas s)(nd :=
                    (metas s nd)\<lparr>md_browserHash := md_browserHash (metas s md)\<rparr>)\<rparr>"
  define s1b where "s1b = keep_chunks_browserHash md nd (map fst (chunks (metas s1a nd))) s1a"
  have kb: "keep_browserHash cf s =
      keep_optimized_browserHash md nd (map fst (optimized (metas s1b nd))) s1b"
    using assms by (simp add: keep_browserHash_def Let_def md_def nd_def s1a_def s1b_def)
  have a: "optimized (metas s1a x) = optimized (metas s x)"
    "discovered (metas s1a x) = discovered (metas s x)" for x
    by (simp_all add: s1a_def)
  have b: "metas s1b = metas s1a"
    using keep_chunks_frame [of md nd "map fst (chunks (metas s1a nd))" s1a]
    by (simp add: s1b_def)
  have o: "optimized_or_discovered s1b md dep = optimized_or_discovered s md dep" for dep
    by (rule optimized_or_discovered_maps_cong) (simp_all add: a b)
  have "(\<not> isl (keep_browserHash cf s)) =
      (\<exists>s'. keep_optimized_browserHash md nd (map fst (optimized (metas s1b nd))) s1b = Inr s')"
    unfolding kb by (cases "keep_optimized_browserHash md nd
        (map fst (optimized (metas s1b nd))) s1b") simp_all
  also have "\<dots> = (\<forall>dep \<in> set (map fst (optimized (metas s1b nd))).
       map_of (optimized (metas s1b nd)) dep \<noteq> None \<and> optimized_or_discovered s1b md dep \<noteq> None)"
    by (rule keep_optimized_total)
  also have "\<dots> = within_known s md nd"
    unfolding within_known_def o
    by (auto simp: a b map_of_eq_None_iff)
  finally show ?thesis by (simp add: md_def nd_def)
qed

lemma keep_browserHash_Inl:
  "keep_browserHash cf s = Inl (e, t) \<Longrightarrow> e = TypeError \<and> \<not> fr_needsReload cf"
  by (auto simp: keep_browserHash_def Let_def split: if_splits dest: keep_optimized_Inl)

lemma catch_finish_error_path:
  assumes "md = cur_metadata t"
  shows "error_path e t (fst (runOptimizer_finish env (runOptimizer_catch md e t)))"
  using assms
  by (auto simp add: error_path_def runOptimizer_finish_def rerun_def Let_def
      runOptimizer_catch_eq runOptimizer_start_empty clear_handle_eq
      split: prod.splits if_splits)

lemma error_path_only_store:
  "only_store s t \<Longrightarrow> error_path e t s' \<Longrightarrow> error_path e s s'"
  by (auto simp: error_path_def only_store_fields)

lemma needsReload_total:
  assumes "\<not> some_optimized_missing s md nd"
  shows "\<not> isl (needsReload s md nd)"
proof (cases "needsReload s md nd")
  case (Inr b)
  then show ?thesis by simp
next
  case (Inl e)
  then have "fileHash_changed s md nd (map fst (optimized (metas s md))) = Inl e"
    by (simp add: needsReload_def split: if_splits)
  from fileHash_changed_Inl [OF this] assms show ?thesis
    by (simp add: some_optimized_missing_def)
qed

lemma needsReload_Inl:
  assumes "needsReload s md nd = Inl e"
  shows "e = TypeError \<and> some_optimized_missing s md nd"
proof -
  from assms have "fileHash_changed s md nd (map fst (optimized (metas s md))) = Inl e"
    by (simp add: needsReload_def split: if_splits)
  from fileHash_changed_Inl [OF this] show ?thesis
    by (simp add: some_optimized_missing_def)
qed

lemma needsReload_False_complete:
  assumes "needsReload s md nd = Inr False"
  shows "\<not> some_optimized_missing s md nd"
proof -
  have "map_of (optimized (metas s nd)) dep \<noteq> None"
    if "dep \<in> set (map fst (optimized (metas s md)))" for dep
  proof -
    from that obtain m where "map_of (optimized (metas s md)) dep = Some m"
      using map_of_key_Some [of dep "optimized (metas s md)"] by auto
    from needsReload_False_covers [OF assms this] show ?thesis by auto
  qed
  then show ?thesis by (auto simp: some_optimized_missing_def)
qed

text \<open>
  Claim C9, as amended. The rerun reads \<^verbatim>\<open>newData.optimized[dep].fileHash\<close> and
  \<^verbatim>\<open>(metadata.optimized[dep] || metadata.discovered[dep]).browserHash\<close> without
  presence checks, but only where the decision gets that far. After an interop
  mismatch or under another hash no file hash is read and \<^verbatim>\<open>needsReload\<close> is true,
  whatever ids are missing. Otherwise the file hashes are read in the order of the
  keys of the old optimized map and the reads stop at the first id that does not keep
  its file hash: the result is true when the new map has that id, a TypeError when
  it lacks it, and false when every id keeps its file hash. Hence \<^verbatim>\<open>needsReload\<close>
  is computed if the new map has every optimized id of the snapshot, it is false only
  if the map has them all, and it throws only if one is missing. The browser hashes
  are read only when \<^verbatim>\<open>needsReload\<close> is false, and then they are all read without
  error exactly when every optimized id of the bundler is optimized or discovered in
  the snapshot. Where one of the two reads throws, the handler of the rerun takes
  over: the error is logged, the resolve-queue is drained, the discovered map is
  cleared and \<^verbatim>\<open>_metadata\<close> is not swapped.
\<close>

theorem bundler_metadata_reads:
  "(needsInteropMismatch s md nd \<noteq> [] \<or> hash (metas s md) \<noteq> hash (metas s nd) \<longrightarrow>
      needsReload s md nd = Inr True) \<and>
   (needsInteropMismatch s md nd = [] \<and> hash (metas s md) = hash (metas s nd) \<longrightarrow>
      needsReload s md nd =
        (case first_unkept s md nd of
           [] \<Rightarrow> Inr False
         | dep # rest \<Rightarrow>
             if map_of (optimized (metas s nd)) dep = None then Inl TypeError else Inr True)) \<and>
   (\<not> some_optimized_missing s md nd \<longrightarrow> \<not> isl (needsReload s md nd)) \<and>
   (needsReload s md nd = Inr False \<longrightarrow> \<not> some_optimized_missing s md nd) \<and>
   (\<forall>e. needsReload s md nd = Inl e \<longrightarrow> e = TypeError \<and> some_optimized_missing s md nd) \<and>
   (fr_needsReload cf \<longrightarrow> keep_browserHash cf s = Inr s) \<and>
   (\<not> fr_needsReload cf \<longrightarrow>
      (\<not> isl (keep_browserHash cf s)) = within_known s (fr_metadata cf) (fr_newData cf)) \<and>
   (\<forall>e t. keep_browserHash cf s = Inl (e, t) \<longrightarrow> e = TypeError) \<and>
   (\<forall>b newData s1 e. alloc_metadata b s = (newData, s1) \<longrightarrow>
      needsReload s1 (fr_metadata fr) newData = Inl e \<longrightarrow>
      fr_metadata fr = cur_metadata s \<longrightarrow>
      error_path e s (fst (runOptimizer_bundled env fr (Inr b) s))) \<and>
   (\<forall>e t. commitProcessing cf s = Inl (e, t) \<longrightarrow> fr_metadata cf = cur_metadata s \<longrightarrow>
      error_path e s (fst (runOptimizer_committed env cf (Inr ()) s)))"
proof (intro conjI allI impI)
  show "needsReload s md nd = Inr True"
    if "needsInteropMismatch s md nd \<noteq> [] \<or> hash (metas s md) \<noteq> hash (metas s nd)"
    using that needsReload_decision [of s md nd] by simp
  show "needsReload s md nd =
        (case first_unkept s md nd of
           [] \<Rightarrow> Inr False
         | dep # rest \<Rightarrow>
             if map_of (optimized (metas s nd)) dep = None then Inl TypeError else Inr True)"
    if "needsInteropMismatch s md nd = [] \<and> hash (metas s md) = hash (metas s nd)"
    using that needsReload_decision [of s md nd] by simp
  show "\<not> isl (needsReload s md nd)" if "\<not> some_optimized_missing s md nd"
    using that by (rule needsReload_total)
  show "\<not> some_optimized_missing s md nd" if "needsReload s md nd = Inr False"
    using that by (rule needsReload_False_complete)
  show "e = TypeError" "some_optimized_missing s md nd" if "needsReload s md nd = Inl e" for e
    using needsReload_Inl [OF that] by simp_all
  show "keep_browserHash cf s = Inr s" if "fr_needsReload cf"
    using that by (simp add: keep_browserHash_def)
  show "(\<not> isl (keep_browserHash cf s)) = within_known s (fr_metadata cf) (fr_newData cf)"
    if "\<not> fr_needsReload cf"
    using that by (rule keep_browserHash_total)
  show "e = TypeError" if "keep_browserHash cf s = Inl (e, t)" for e t
    using keep_browserHash_Inl [OF that] by simp
  show "error_path e s (fst (runOptimizer_bundled env fr (Inr b) s))"
    if a: "alloc_metadata b s = (newData, s1)"
      and n: "needsReload s1 (fr_metadata fr) newData = Inl e"
      and c: "fr_metadata fr = cur_metadata s" for b newData s1 e
  proof -
    from a alloc_metadata_only_store [of s b] have os: "only_store s s1" by simp
    with c have "fr_metadata fr = cur_metadata s1" by (simp add: only_store_fields)
    from catch_finish_error_path [OF this, where e = e and env = env]
    have "error_path e s (fst (runOptimizer_finish env (runOptimizer_catch (fr_metadata fr) e s1)))"
      by (rule error_path_only_store [OF os])
    with a n show ?thesis
      by (simp add: runOptimizer_bundled_def Let_def split_def)
  qed
  show "error_path e s (fst (runOptimizer_committed env cf (Inr ()) s))"
    if a: "commitProcessing cf s = Inl (e, t)" and c: "fr_metadata cf = cur_metadata s" for e t
  proof -
    from commitProcessing_Inl [OF a] have os: "only_store s t" .
    with c have "fr_metadata cf = cur_metadata t" by (simp add: only_store_fields)
    from catch_finish_error_path [OF this, where e = e and env = env]
    have "error_path e s (fst (runOptimizer_finish env (runOptimizer_catch (fr_metadata cf) e t)))"
      by (rule error_path_only_store [OF os])
    with a show ?thesis
      by (simp add: runOptimizer_committed_def)
  qed
qed

lemmas demo_alloc_simps =
  alloc_metadata_def alloc_info_def demo_rehashed_def demo_lost_def demo_running_def
  demo_info_def demo_frame_def empty_state_def Let_def

theorem bundler_metadata_reads_witness:
  "some_optimized_missing (snd (alloc_metadata demo_lost demo_running)) 1 7 \<and>
   needsReload (snd (alloc_metadata demo_lost demo_running)) 1 7 = Inl TypeError \<and>
   error_path TypeError demo_running
     (fst (runOptimizer_bundled demo_env demo_frame (Inr demo_lost) demo_running))"
proof -
  let ?s1 = "snd (alloc_metadata demo_lost demo_running)"
  have a: "alloc_metadata demo_lost demo_running = (7, ?s1)"
    by (simp add: demo_alloc_simps)
  have n: "needsReload ?s1 (fr_metadata demo_frame) 7 = Inl TypeError"
    by (simp add: demo_alloc_simps needsReload_def needsInteropMismatch_def
        interop_mismatch_def)
  have c: "fr_metadata demo_frame = cur_metadata demo_running" "fr_metadata demo_frame = 1"
    by (simp_all add: demo_alloc_simps)
  have m: "some_optimized_missing ?s1 1 7"
    by (simp add: demo_alloc_simps some_optimized_missing_def)
  from bundler_metadata_reads [where s = demo_running and fr = demo_frame and env = demo_env]
  have "error_path TypeError demo_running
     (fst (runOptimizer_bundled demo_env demo_frame (Inr demo_lost) demo_running))"
    using a n c(1) by blast
  with n c m show ?thesis by simp
qed

text \<open>The claim as stated fails where the short circuit decides first: the bundler
  returns another hash and no entry for \<open>vue\<close>, which was optimized; the rerun reads
  no file hash, computes \<^verbatim>\<open>needsReload = true\<close>, calls \<^verbatim>\<open>commit\<close> and commits.\<close>

theorem missing_id_without_error_counterexample:
  "some_optimized_missing (snd (alloc_metadata demo_rehashed demo_running)) 1 7 \<and>
   needsReload (snd (alloc_metadata demo_rehashed demo_running)) 1 7 = Inr True \<and>
   snd (runOptimizer_bundled demo_env demo_frame (Inr demo_rehashed) demo_running) =
     AwaitCommit \<lparr>fr_isRerun = True, fr_metadata = 1, fr_newData = 7,
       fr_needsReload = True, fr_needsInteropMismatch = []\<rparr> \<and>
   effects (fst (runOptimizer_bundled demo_env demo_frame (Inr demo_rehashed) demo_running)) =
     [BundlerCommit 7] \<and>
   \<not> isl (commitProcessing
            \<lparr>fr_isRerun = True, fr_metadata = 1, fr_newData = 7,
             fr_needsReload = True, fr_needsInteropMismatch = []\<rparr>
            (fst (runOptimizer_bundled demo_env demo_frame (Inr demo_rehashed) demo_running)))"
  by (simp add: demo_alloc_simps demo_env_def some_optimized_missing_def needsReload_def
      needsInteropMismatch_def interop_mismatch_def runOptimizer_bundled_def emit_def
      commitProcessing_def keep_browserHash_def addOptimizedDepInfo_def
      resolveEnqueuedProcessingPromises_def)

section \<open>A rerun that changes nothing: the commit\<close>







end
